theory Spec2Isabelle
  imports Main "HOL-Library.Word"
begin

unbundle bit_operations_syntax

section \<open>JavaScript strings and numbers\<close>

text \<open>
  A JavaScript string is a sequence of UTF-16 code units: \<open>str.length\<close> counts them and
  \<open>str.charCodeAt(i)\<close> reads one, a number between 0 and 65535. String literals of the
  source are ASCII and are written \<open>js ''...''\<close>.
\<close>

type_synonym jsstring = "16 word list"

definition js :: "string \<Rightarrow> jsstring" where
  "js s = map (\<lambda>c. of_nat (of_char c)) s"

text \<open>
  \<open>String.prototype.trim\<close> removes white space and line terminators from both ends:
  TAB, LF, VT, FF, CR, SP, NBSP, U+1680, U+2000 to U+200A, U+2028, U+2029, U+202F, U+205F,
  U+3000 and U+FEFF.
\<close>

definition isWhiteSpace :: "16 word \<Rightarrow> bool" where
  "isWhiteSpace c \<longleftrightarrow>
     c \<in> {9, 10, 11, 12, 13, 32, 160, 5760, 8232, 8233, 8239, 8287, 12288, 65279}
     \<or> (8192 \<le> c \<and> c \<le> 8202)"

definition trim :: "jsstring \<Rightarrow> jsstring" where
  "trim s = rev (dropWhile isWhiteSpace (rev (dropWhile isWhiteSpace s)))"

text \<open>
  The numbers of \<open>hashString\<close> are integers far below \<open>2 ^ 53\<close>, where JavaScript's
  arithmetic is exact, so they are modelled as \<open>int\<close>. The bitwise operators convert their
  operands with \<open>ToInt32\<close>: reduce modulo \<open>2 ^ 32\<close>, then read as two's complement.
  \<open>x << n\<close> is \<open>ToInt32 (ToInt32 x * 2 ^ (n mod 32))\<close> and \<open>x & y\<close> is the bitwise
  conjunction of \<open>ToInt32 x\<close> and \<open>ToInt32 y\<close>.
\<close>

definition ToInt32 :: "int \<Rightarrow> int" where
  "ToInt32 x = (let m = x mod 2 ^ 32 in if m \<ge> 2 ^ 31 then m - 2 ^ 32 else m)"

definition shiftLeft :: "int \<Rightarrow> nat \<Rightarrow> int" where
  "shiftLeft x n = ToInt32 (ToInt32 x * 2 ^ (n mod 32))"

definition bitAnd :: "int \<Rightarrow> int \<Rightarrow> int" where
  "bitAnd x y = ToInt32 x AND ToInt32 y"

text \<open>
  \<open>Number.prototype.toString(radix)\<close> on an integer: the digits \<open>0-9a-z\<close> of the absolute
  value, most significant first, after a minus sign (code unit 45) when it is negative.
\<close>

definition digitUnit :: "int \<Rightarrow> 16 word" where
  "digitUnit d = (if d < 10 then 48 + word_of_int d else 87 + word_of_int d)"

function digitsRadix :: "int \<Rightarrow> int \<Rightarrow> jsstring" where
  "digitsRadix r n =
     (if n < r \<or> r < 2 then [digitUnit n]
      else digitsRadix r (n div r) @ [digitUnit (n mod r)])"
  by pat_completeness auto
termination
proof (relation "measure (nat \<circ> snd)")
  fix r n :: int
  assume "\<not> (n < r \<or> r < 2)"
  then have "2 \<le> r" "0 < n" by simp_all
  then have "n div r < n" by (simp add: int_div_less_self)
  then show "((r, n div r), r, n) \<in> measure (nat \<circ> snd)"
    using \<open>0 < n\<close> by simp
qed simp

definition toStringRadix :: "int \<Rightarrow> int \<Rightarrow> jsstring" where
  "toStringRadix r x = (if x < 0 then 45 # digitsRadix r (- x) else digitsRadix r x)"

text \<open>Reading such a rendering back: the value of a digit, of a digit string, of a signed one.\<close>

definition digitValue :: "16 word \<Rightarrow> int" where
  "digitValue c = (if c \<le> 57 then uint c - 48 else uint c - 87)"

definition parseDigits :: "int \<Rightarrow> jsstring \<Rightarrow> int" where
  "parseDigits r s = foldl (\<lambda>acc c. acc * r + digitValue c) 0 s"

definition parseInt :: "int \<Rightarrow> jsstring \<Rightarrow> int" where
  "parseInt r s =
     (case s of
        [] \<Rightarrow> 0
      | c # cs \<Rightarrow> if c = 45 then - parseDigits r cs else parseDigits r s)"

section \<open>The identity function \<open>hashString\<close>\<close>

text \<open>
  \<^verbatim>\<open>
  function hashString(str) {
    let hash = 0;
    for (let i = 0; i < str.length; i++) {
      const char = str.charCodeAt(i);
      hash = ((hash << 5) - hash) + char;
      hash = hash & hash; // Convert to 32-bit integer
    }
    return hash.toString(36);
  }
  \<close>
  \<open>hashLoop\<close> is the loop, from the current index on, with the current value of \<open>hash\<close>.
\<close>

fun hashLoop :: "jsstring \<Rightarrow> int \<Rightarrow> int" where
  "hashLoop [] hash = hash"
| "hashLoop (c # cs) hash =
     (let h = (shiftLeft hash 5 - hash) + uint c in hashLoop cs (bitAnd h h))"

definition hashString :: "jsstring \<Rightarrow> jsstring" where
  "hashString str = toStringRadix 36 (hashLoop str 0)"

text \<open>
  The hash as the specification words it: a fold over the character codes of
  \<open>hash' = truncate32 (((hash << 5) - hash) + charCode)\<close>, where the shift is the one of
  unbounded integers and \<open>truncate32\<close> keeps the low 32 bits, read as a signed integer.
\<close>

definition truncate32 :: "int \<Rightarrow> int" where
  "truncate32 x = sint (word_of_int x :: 32 word)"

definition foldHash :: "jsstring \<Rightarrow> int" where
  "foldHash T = foldl (\<lambda>hash c. truncate32 ((push_bit 5 hash - hash) + uint c)) 0 T"

section \<open>The background worker\<close>

subsection \<open>Values, exceptions and the browser's answers\<close>

text \<open>
  The values the worker receives from the network are JSON values; a property read can also
  give \<open>undefined\<close>. Numbers are integers in this model: the worker only tests them for
  truth and prints them.
\<close>

datatype jsval =
    JUndefined
  | JNull
  | JBool bool
  | JNum int
  | JStr jsstring
  | JArr "jsval list"
  | JObj "(jsstring \<times> jsval) list"

text \<open>
  A thrown value is an \<open>Error\<close> object with its message: the browser's interfaces reject
  with such objects and the source throws nothing else. \<open>TypeError\<close> is the one the
  engine raises for a property read on \<open>undefined\<close> or \<open>null\<close> and for a call of
  something that is no function; its wording is the engine's.
\<close>

datatype exn = Error (message: jsstring)

definition TypeError :: exn where
  "TypeError = Error (js ''Cannot read properties of undefined'')"

definition truthy :: "jsval \<Rightarrow> bool" where
  "truthy v =
     (case v of
        JUndefined \<Rightarrow> False
      | JNull \<Rightarrow> False
      | JBool b \<Rightarrow> b
      | JNum n \<Rightarrow> n \<noteq> 0
      | JStr s \<Rightarrow> s \<noteq> []
      | JArr xs \<Rightarrow> True
      | JObj fs \<Rightarrow> True)"

definition nullish :: "jsval \<Rightarrow> bool" where
  "nullish v \<longleftrightarrow> v = JUndefined \<or> v = JNull"

text \<open>
  \<open>v.name\<close> for the names the source reads (\<open>error\<close>, \<open>message\<close>, \<open>choices\<close>,
  \<open>content\<close>, \<open>likelihood\<close>, \<open>reason\<close>): an object gives its property or
  \<open>undefined\<close>, any other value but \<open>undefined\<close> and \<open>null\<close> has no property of
  these names. \<open>v[0]\<close> also reads the first element of an array and the first code unit of
  a string. \<open>v?.name\<close> is \<open>undefined\<close> when \<open>v\<close> is \<open>undefined\<close> or \<open>null\<close>.
\<close>

definition getProp :: "jsval \<Rightarrow> jsstring \<Rightarrow> exn + jsval" where
  "getProp v name =
     (case v of
        JUndefined \<Rightarrow> Inl TypeError
      | JNull \<Rightarrow> Inl TypeError
      | JObj fs \<Rightarrow> (case map_of fs name of None \<Rightarrow> Inr JUndefined | Some x \<Rightarrow> Inr x)
      | _ \<Rightarrow> Inr JUndefined)"

definition getIndex0 :: "jsval \<Rightarrow> exn + jsval" where
  "getIndex0 v =
     (case v of
        JUndefined \<Rightarrow> Inl TypeError
      | JNull \<Rightarrow> Inl TypeError
      | JArr xs \<Rightarrow> (case xs of [] \<Rightarrow> Inr JUndefined | x # _ \<Rightarrow> Inr x)
      | JStr s \<Rightarrow> (case s of [] \<Rightarrow> Inr JUndefined | c # _ \<Rightarrow> Inr (JStr [c]))
      | JObj fs \<Rightarrow> (case map_of fs (js ''0'') of None \<Rightarrow> Inr JUndefined | Some x \<Rightarrow> Inr x)
      | _ \<Rightarrow> Inr JUndefined)"

definition optProp :: "jsval \<Rightarrow> jsstring \<Rightarrow> exn + jsval" where
  "optProp v name = (if nullish v then Inr JUndefined else getProp v name)"

text \<open>
  The conversion of a value to a string, which \<open>new Error(value)\<close> applies to its argument
  and \<open>stats[likelihood]\<close> to its key. An array joins its elements with commas,
  \<open>undefined\<close> and \<open>null\<close> elements as empty strings.
\<close>

fun joinComma :: "jsstring list \<Rightarrow> jsstring" where
  "joinComma [] = []"
| "joinComma [s] = s"
| "joinComma (s # t # ts) = s @ 44 # joinComma (t # ts)"

fun ToString :: "jsval \<Rightarrow> jsstring" where
  "ToString JUndefined = js ''undefined''"
| "ToString JNull = js ''null''"
| "ToString (JBool b) = (if b then js ''true'' else js ''false'')"
| "ToString (JNum n) = toStringRadix 10 n"
| "ToString (JStr s) = s"
| "ToString (JArr xs) = joinComma (map (\<lambda>x. if nullish x then [] else ToString x) xs)"
| "ToString (JObj fs) = js ''[object Object]''"

text \<open>
  What \<open>fetch\<close> resolves to: \<open>response.ok\<close>, \<open>response.status\<close> and what
  \<open>response.json()\<close> settles to (an exception when the body is no JSON).
\<close>

record response =
  ok :: bool
  status :: nat
  json :: "exn + jsval"

text \<open>
  The browser's part in one run of \<open>handleAnalyzePost\<close>, in the order the source asks for
  it: whether \<open>chrome.storage.local.get(['apiKey', 'enabled'])\<close> rejects; the two values
  of \<open>Date.now()\<close>; what \<open>fetch\<close> settles to; \<open>JSON.parse\<close>; whether the read and
  the write of \<open>stats\<close> reject.
\<close>

record env =
  settingsGet :: "exn option"
  now_before :: int
  now_after :: int
  fetched :: "exn + response"
  JSON_parse :: "jsstring \<Rightarrow> exn + jsval"
  statsGet :: "exn option"
  statsSet :: "exn option"

text \<open>Sequencing of steps that may throw: the first exception ends the sequence.\<close>

definition andThen :: "exn + 'a \<Rightarrow> ('a \<Rightarrow> exn + 'b) \<Rightarrow> exn + 'b" where
  "andThen x f = (case x of Inl e \<Rightarrow> Inl e | Inr v \<Rightarrow> f v)"

subsection \<open>Storage: settings and statistics\<close>

text \<open>
  The statistics are a JavaScript object read by property name, \<open>stats[likelihood]++\<close>: a
  map from names to numbers. \<open>x++\<close> on a property that is missing or no number leaves
  \<open>NaN\<close> there.
\<close>

datatype jsnum = Number int | NaN

type_synonym stats = "jsstring \<rightharpoonup> jsnum"

record storage =
  stored_apiKey :: "jsstring option"
  stored_enabled :: "bool option"
  stored_stats :: "stats option"

record settings =
  apiKey :: jsstring
  enabled :: bool

text \<open>
  The worker's state is the time of the last request and the storage. \<open>effects\<close> lists
  what the worker did to the outside, in order: a \<open>fetch\<close> (with the key and the post's
  text), a wait of so many milliseconds, a write of the statistics.
\<close>

datatype effect = Fetch jsstring jsstring | Wait int | StorageSet stats

record worker =
  lastRequestTime :: int
  storage :: storage
  effects :: "effect list"

definition storageWrites :: "effect list \<Rightarrow> stats list" where
  "storageWrites es = concat (map (\<lambda>e. case e of StorageSet s \<Rightarrow> [s] | _ \<Rightarrow> []) es)"

definition fetches :: "effect list \<Rightarrow> (jsstring \<times> jsstring) list" where
  "fetches es = concat (map (\<lambda>e. case e of Fetch k t \<Rightarrow> [(k, t)] | _ \<Rightarrow> []) es)"

definition MIN_REQUEST_INTERVAL :: int where
  "MIN_REQUEST_INTERVAL = 1000"

text \<open>
  \<^verbatim>\<open>
  async function getSettings() {
    const result = await chrome.storage.local.get(['apiKey', 'enabled']);
    return {
      apiKey: result.apiKey || '',
      enabled: result.enabled !== false // Default to true
    };
  }
  \<close>
\<close>

definition getSettings :: "env \<Rightarrow> worker \<Rightarrow> exn + settings" where
  "getSettings env w =
     (case settingsGet env of
        Some e \<Rightarrow> Inl e
      | None \<Rightarrow>
          Inr \<lparr>apiKey = (case stored_apiKey (storage w) of None \<Rightarrow> [] | Some k \<Rightarrow> k),
               enabled = (stored_enabled (storage w) \<noteq> Some False)\<rparr>)"

text \<open>
  \<^verbatim>\<open>
  async function getStats() {
    const result = await chrome.storage.local.get(['stats']);
    return result.stats || { totalAnalyzed: 0, low: 0, medium: 0, high: 0, certain: 0 };
  }

  async function updateStats(likelihood) {
    const stats = await getStats();
    stats.totalAnalyzed++;
    stats[likelihood]++;
    await chrome.storage.local.set({ stats });
  }
  \<close>
  A write that rejects leaves the storage as it was.
\<close>

definition defaultStats :: stats where
  "defaultStats =
     [js ''totalAnalyzed'' \<mapsto> Number 0, js ''low'' \<mapsto> Number 0, js ''medium'' \<mapsto> Number 0,
      js ''high'' \<mapsto> Number 0, js ''certain'' \<mapsto> Number 0]"

definition statsOrDefault :: "storage \<Rightarrow> stats" where
  "statsOrDefault st = (case stored_stats st of None \<Rightarrow> defaultStats | Some s \<Rightarrow> s)"

definition getStats :: "env \<Rightarrow> worker \<Rightarrow> exn + stats" where
  "getStats env w =
     (case statsGet env of
        Some e \<Rightarrow> Inl e
      | None \<Rightarrow> Inr (statsOrDefault (storage w)))"

definition increment :: "jsnum option \<Rightarrow> jsnum" where
  "increment v = (case v of Some (Number n) \<Rightarrow> Number (n + 1) | _ \<Rightarrow> NaN)"

definition postIncrement :: "jsstring \<Rightarrow> stats \<Rightarrow> stats" where
  "postIncrement k s = s(k \<mapsto> increment (s k))"

definition updateStats :: "env \<Rightarrow> jsval \<Rightarrow> worker \<Rightarrow> (exn + unit) \<times> worker" where
  "updateStats env likelihood w =
     (case getStats env w of
        Inl e \<Rightarrow> (Inl e, w)
      | Inr stats \<Rightarrow>
          let stats1 = postIncrement (js ''totalAnalyzed'') stats;
              stats2 = postIncrement (ToString likelihood) stats1;
              w1 = w\<lparr>effects := effects w @ [StorageSet stats2]\<rparr>
          in (case statsSet env of
                Some e \<Rightarrow> (Inl e, w1)
              | None \<Rightarrow> (Inr (), w1\<lparr>storage := (storage w1)\<lparr>stored_stats := Some stats2\<rparr>\<rparr>)))"

subsection \<open>The classification client \<open>analyzeWithOpenAI\<close>\<close>

record result =
  likelihood :: jsval
  reason :: jsval

definition labels :: "jsstring list" where
  "labels = [js ''low'', js ''medium'', js ''high'', js ''certain'']"

text \<open>
  The two calls of \<open>content.replace\<close> remove every occurrence of a fence of three
  backquotes (first the fence followed by \<open>json\<close>, then the bare one), each with the line
  feed after it when there is one, left to right; then the string is trimmed. The code unit
  of the backquote is 96.
\<close>

definition dropNewline :: "jsstring \<Rightarrow> jsstring" where
  "dropNewline s = (case s of [] \<Rightarrow> [] | c # cs \<Rightarrow> if c = 10 then cs else s)"

function replaceFence :: "jsstring \<Rightarrow> jsstring \<Rightarrow> jsstring" where
  "replaceFence pat [] = []"
| "replaceFence pat (c # cs) =
     (if pat \<noteq> [] \<and> take (length pat) (c # cs) = pat
      then replaceFence pat (dropNewline (drop (length pat) (c # cs)))
      else c # replaceFence pat cs)"
  by pat_completeness auto
termination
proof (relation "measure (length \<circ> snd)")
  fix pat :: jsstring and c cs
  assume "pat \<noteq> [] \<and> take (length pat) (c # cs) = pat"
  then have "0 < length pat" by simp
  then have "length (drop (length pat) (c # cs)) < length (c # cs)" by simp
  moreover have "length (dropNewline xs) \<le> length xs" for xs
    by (cases xs) (simp_all add: dropNewline_def)
  ultimately have "length (dropNewline (drop (length pat) (c # cs))) < length (c # cs)"
    by (rule le_less_trans [rotated])
  then show "((pat, dropNewline (drop (length pat) (c # cs))), pat, c # cs)
               \<in> measure (length \<circ> snd)"
    by simp
qed simp_all

definition cleanContent :: "jsstring \<Rightarrow> jsstring" where
  "cleanContent content =
     trim (replaceFence [96, 96, 96] (replaceFence ([96, 96, 96] @ js ''json'') content))"

text \<open>
  \<^verbatim>\<open>
  if (!response.ok) {
    const errorData = await response.json().catch(() => ({}));
    throw new Error(errorData.error?.message || `API error: ${response.status}`);
  }
  \<close>
  \<open>apiError\<close> is the exception this block ends with.
\<close>

definition apiError :: "response \<Rightarrow> exn" where
  "apiError response =
     (let errorData = (case json response of Inl _ \<Rightarrow> JObj [] | Inr v \<Rightarrow> v)
      in (case andThen (getProp errorData (js ''error'')) (\<lambda>err. optProp err (js ''message'')) of
            Inl e \<Rightarrow> e
          | Inr m \<Rightarrow>
              Error (if truthy m then ToString m
                     else js ''API error: '' @ toStringRadix 10 (int (status response)))))"

text \<open>
  \<^verbatim>\<open>
  try {
    const cleanContent = content.replace(...).replace(...).trim();
    const parsed = JSON.parse(cleanContent);
    if (!['low', 'medium', 'high', 'certain'].includes(parsed.likelihood)) {
      throw new Error('Invalid likelihood value');
    }
    return { likelihood: parsed.likelihood, reason: parsed.reason || 'No reason provided' };
  } catch (parseError) {
    throw new Error('Failed to parse API response');
  }
  \<close>
  \<open>parseContent\<close> is the body of the \<open>try\<close>; a \<open>content\<close> that is no string has no
  method \<open>replace\<close>. The \<open>catch\<close> is in \<open>readResponse\<close>.
\<close>

definition parseContent :: "env \<Rightarrow> jsval \<Rightarrow> exn + result" where
  "parseContent env content =
     (case content of
        JStr s \<Rightarrow>
          andThen (JSON_parse env (cleanContent s)) (\<lambda>parsed.
          andThen (getProp parsed (js ''likelihood'')) (\<lambda>l.
            if l \<notin> set (map JStr labels) then Inl (Error (js ''Invalid likelihood value''))
            else andThen (getProp parsed (js ''reason'')) (\<lambda>r.
              Inr \<lparr>likelihood = l,
                   reason = (if truthy r then r else JStr (js ''No reason provided''))\<rparr>)))
      | _ \<Rightarrow> Inl TypeError)"

text \<open>
  \<^verbatim>\<open>
  const data = await response.json();
  const content = data.choices[0]?.message?.content;
  if (!content) {
    throw new Error('Empty response from API');
  }
  \<close>
\<close>

definition readResponse :: "env \<Rightarrow> response \<Rightarrow> exn + result" where
  "readResponse env response =
     (if \<not> ok response then Inl (apiError response)
      else
        andThen (json response) (\<lambda>data.
        andThen (getProp data (js ''choices'')) (\<lambda>choices.
        andThen (getIndex0 choices) (\<lambda>choice.
        andThen (optProp choice (js ''message'')) (\<lambda>msg.
        andThen (optProp msg (js ''content'')) (\<lambda>content.
          if \<not> truthy content then Inl (Error (js ''Empty response from API''))
          else (case parseContent env content of
                  Inl parseError \<Rightarrow> Inl (Error (js ''Failed to parse API response''))
                | Inr r \<Rightarrow> Inr r)))))))"

text \<open>The request itself: one \<open>fetch\<close> with the key and the post's text in the prompt.\<close>

definition analyzeWithOpenAI ::
  "env \<Rightarrow> jsstring \<Rightarrow> jsstring \<Rightarrow> worker \<Rightarrow> (exn + result) \<times> worker" where
  "analyzeWithOpenAI env postText key w =
     (let w1 = w\<lparr>effects := effects w @ [Fetch key postText]\<rparr>
      in (andThen (fetched env) (readResponse env), w1))"

subsection \<open>\<open>handleAnalyzePost\<close>\<close>

text \<open>
  \<^verbatim>\<open>
  async function handleAnalyzePost(postText) {
    try {
      const settings = await getSettings();
      if (!settings.enabled) {
        return { error: 'Extension disabled' };
      }
      if (!settings.apiKey) {
        return { error: 'No API key configured' };
      }
      const now = Date.now();
      const timeSinceLastRequest = now - lastRequestTime;
      if (timeSinceLastRequest < MIN_REQUEST_INTERVAL) {
        await new Promise(resolve =>
          setTimeout(resolve, MIN_REQUEST_INTERVAL - timeSinceLastRequest));
      }
      lastRequestTime = Date.now();
      const result = await analyzeWithOpenAI(postText, settings.apiKey);
      await updateStats(result.likelihood);
      return result;
    } catch (error) {
      console.error('Error analyzing post:', error);
      return { error: error.message };
    }
  }
  \<close>
  The reply is the object sent back to the content script. \<open>rateLimit\<close> is the rate
  limiting, \<open>tryAnalyzePost\<close> the \<open>try\<close> block, \<open>handleAnalyzePost\<close> the function:
  its result is \<open>Inl\<close> for an exception that leaves it and \<open>Inr\<close> for a reply. One run
  is modelled from its call to its return, on the state it finds.
\<close>

datatype reply = Result jsval jsval | Failure jsstring

definition rateLimit :: "env \<Rightarrow> worker \<Rightarrow> worker" where
  "rateLimit env w =
     (let timeSinceLastRequest = now_before env - lastRequestTime w;
          w1 = (if timeSinceLastRequest < MIN_REQUEST_INTERVAL
                then w\<lparr>effects := effects w @
                        [Wait (MIN_REQUEST_INTERVAL - timeSinceLastRequest)]\<rparr>
                else w)
      in w1\<lparr>lastRequestTime := now_after env\<rparr>)"

definition tryAnalyzePost :: "env \<Rightarrow> jsstring \<Rightarrow> worker \<Rightarrow> (exn + reply) \<times> worker" where
  "tryAnalyzePost env postText w =
     (case getSettings env w of
        Inl e \<Rightarrow> (Inl e, w)
      | Inr settings \<Rightarrow>
          if \<not> enabled settings then (Inr (Failure (js ''Extension disabled'')), w)
          else if apiKey settings = [] then (Inr (Failure (js ''No API key configured'')), w)
          else
            (case analyzeWithOpenAI env postText (apiKey settings) (rateLimit env w) of
               (Inl e, w3) \<Rightarrow> (Inl e, w3)
             | (Inr r, w3) \<Rightarrow>
                 (case updateStats env (likelihood r) w3 of
                    (Inl e, w4) \<Rightarrow> (Inl e, w4)
                  | (Inr u, w4) \<Rightarrow> (Inr (Result (likelihood r) (reason r)), w4))))"

definition handleAnalyzePost :: "env \<Rightarrow> jsstring \<Rightarrow> worker \<Rightarrow> (exn + reply) \<times> worker" where
  "handleAnalyzePost env postText w =
     (case tryAnalyzePost env postText w of
        (Inl error, w') \<Rightarrow> (Inr (Failure (message error)), w')
      | (Inr r, w') \<Rightarrow> (Inr r, w'))"

section \<open>The content script\<close>

subsection \<open>The page\<close>

text \<open>
  A tweet is a handle (a number) to an \<open>article\<close> element; the articles are not nested
  in one another. Of the element the script reads and writes: the text of its
  \<open>[data-testid="tweetText"]\<close> descendant (\<open>innerText\<close>, when there is such a
  descendant), \<open>dataset.slopAnalyzed\<close>, and the \<open>.slop-detector-badge\<close> below the
  article, which is what \<open>tweet.querySelector\<close> finds (\<open>badge\<close>).

  Where a badge is inserted depends on what the page has around the Grok button of the
  tweet (\<open>grok\<close>):
  \<^item> \<open>NoGrokButton\<close>: \<open>tweet.querySelector('[aria-label="Grok actions"]')\<close> finds
    nothing, and the badge is appended to the article;
  \<^item> \<open>NoContainer\<close>: there is a button and \<open>grokButton.closest('.r-18u37iz')\<close> finds
    nothing; the badge goes before the button, below the article;
  \<^item> \<open>ContainerInside\<close>: \<open>closest\<close> finds an element below the article; the badge goes
    before it, below the article;
  \<^item> \<open>ContainerOutside root\<close>: \<open>closest\<close> finds the article itself or an element above
    it; the badge goes before that element, so outside the article, where
    \<open>tweet.querySelector\<close> does not look. \<open>strayBadges\<close> lists the badges inserted
    there for the tweet, in the order of their insertion. While the tweet is in the
    document, the element found lies below the root element of the page and has a parent.
    \<open>root\<close> tells that it has none once the tweet is out of the document (it is the top
    of the tree that was taken out); then \<open>grokContainer.parentElement\<close> is \<open>null\<close>
    and the insertion throws a \<open>TypeError\<close>.

  The tooltip of a result badge is not part of the model.
\<close>

datatype badge = LoadingBadge | ResultBadge reply

datatype grok = NoGrokButton | NoContainer | ContainerInside | ContainerOutside bool

record element =
  tweetText :: "jsstring option"
  slopAnalyzed :: "jsstring option"
  badge :: "badge option"
  grok :: grok
  strayBadges :: "badge list"

text \<open>A Work Item \<open>{ tweet, text, postId }\<close>.\<close>

record item =
  tweet :: nat
  itemText :: jsstring
  postId :: jsstring

text \<open>
  The state of the content script in one page: the tweets of the document in document
  order, the elements behind the handles (also of tweets no longer in the document), the
  cache \<open>analyzedPosts\<close>, \<open>analysisQueue\<close> and \<open>isProcessingQueue\<close>. An
  \<open>async function\<close> stops at each \<open>await\<close>; \<open>loops\<close> holds the calls of
  \<open>processQueue\<close> that are stopped, each at the reply to \<open>sendMessage\<close> for an item or
  at the 100 ms timer. \<open>trace\<close> lists, in order, the calls of \<open>analysisQueue.push\<close>
  and \<open>analysisQueue.shift\<close>, the messages sent and the timers started.
\<close>

datatype action = Push item | Shift item | SendMessage jsstring | Delay nat

datatype suspended = AwaitReply item | AwaitDelay

record page =
  document :: "nat list"
  elements :: "nat \<Rightarrow> element"
  analyzedPosts :: "jsstring \<rightharpoonup> reply"
  analysisQueue :: "item list"
  isProcessingQueue :: bool
  loops :: "suspended list"
  trace :: "action list"

definition setTag :: "nat \<Rightarrow> jsstring \<Rightarrow> page \<Rightarrow> page" where
  "setTag t v s = s\<lparr>elements := (elements s)(t := (elements s t)\<lparr>slopAnalyzed := Some v\<rparr>)\<rparr>"

text \<open>\<open>if (tweet.dataset.slopAnalyzed)\<close>: the attribute is set and not the empty string.\<close>

definition tagged :: "page \<Rightarrow> nat \<Rightarrow> bool" where
  "tagged s t = (case slopAnalyzed (elements s t) of None \<Rightarrow> False | Some v \<Rightarrow> v \<noteq> [])"

subsection \<open>Badges\<close>

text \<open>
  \<^verbatim>\<open>
  function removeBadge(tweet) {
    const existing = tweet.querySelector('.slop-detector-badge');
    if (existing) {
      ...
      existing.remove();
    }
  }
  \<close>
  \<open>removeBadge\<close> removes the badge below the article when there is one. A badge that was
  inserted outside the article is not found, and stays.
\<close>

definition removeBadge :: "nat \<Rightarrow> page \<Rightarrow> page" where
  "removeBadge t s =
     (case badge (elements s t) of
        None \<Rightarrow> s
      | Some existing \<Rightarrow> s\<lparr>elements := (elements s)(t := (elements s t)\<lparr>badge := None\<rparr>)\<rparr>)"

text \<open>
  \<open>injectLoadingBadge\<close> and \<open>injectBadge\<close> call \<open>removeBadge\<close>, make their badge and
  end with the same statements, which are \<open>insertBadge\<close>:
  \<^verbatim>\<open>
  const grokButton = tweet.querySelector('[aria-label="Grok actions"]');
  if (grokButton) {
    const grokContainer = grokButton.closest('.r-18u37iz');
    if (grokContainer) {
      grokContainer.parentElement.insertBefore(badge, grokContainer);
    } else {
      grokButton.parentElement.insertBefore(badge, grokButton);
    }
  } else {
    tweet.style.position = 'relative';
    tweet.appendChild(badge);
  }
  \<close>
  \<open>insertThrows\<close> tells whether the insertion throws; \<open>insertBadge\<close> is the state it
  leaves, which is the state as it was when it throws.
\<close>

definition insertThrows :: "page \<Rightarrow> nat \<Rightarrow> bool" where
  "insertThrows s t =
     (case grok (elements s t) of
        NoGrokButton \<Rightarrow> False
      | NoContainer \<Rightarrow> False
      | ContainerInside \<Rightarrow> False
      | ContainerOutside root \<Rightarrow> root \<and> t \<notin> set (document s))"

definition attach :: "nat \<Rightarrow> badge \<Rightarrow> page \<Rightarrow> page" where
  "attach t b s = s\<lparr>elements := (elements s)(t := (elements s t)\<lparr>badge := Some b\<rparr>)\<rparr>"

definition insertBadge :: "nat \<Rightarrow> badge \<Rightarrow> page \<Rightarrow> page" where
  "insertBadge t b s =
     (case grok (elements s t) of
        NoGrokButton \<Rightarrow> attach t b s
      | NoContainer \<Rightarrow> attach t b s
      | ContainerInside \<Rightarrow> attach t b s
      | ContainerOutside root \<Rightarrow>
          if root \<and> t \<notin> set (document s) then s
          else s\<lparr>elements := (elements s)(t := (elements s t)
                 \<lparr>strayBadges := strayBadges (elements s t) @ [b]\<rparr>)\<rparr>)"

definition injectLoadingBadge :: "nat \<Rightarrow> page \<Rightarrow> page" where
  "injectLoadingBadge t s = insertBadge t LoadingBadge (removeBadge t s)"

definition injectBadge :: "nat \<Rightarrow> reply \<Rightarrow> page \<Rightarrow> page" where
  "injectBadge t r s = insertBadge t (ResultBadge r) (removeBadge t s)"

subsection \<open>\<open>processQueue\<close>\<close>

text \<open>
  \<^verbatim>\<open>
  async function processQueue() {
    if (isProcessingQueue || analysisQueue.length === 0) {
      return;
    }
    isProcessingQueue = true;
    while (analysisQueue.length > 0) {
      const { tweet, text, postId } = analysisQueue.shift();
      // Skip if tweet was removed from DOM
      if (!document.contains(tweet)) {
        continue;
      }
      try {
        injectLoadingBadge(tweet);
        const result = await chrome.runtime.sendMessage({ action: 'analyzePost', text: text });
        if (result.error) {
          console.warn('Analysis error:', result.error);
          removeBadge(tweet);
          tweet.dataset.slopAnalyzed = 'error';
          continue;
        }
        analyzedPosts.set(postId, result);
        injectBadge(tweet, result);
        tweet.dataset.slopAnalyzed = 'complete';
      } catch (error) {
        console.error('Error processing tweet:', error);
        removeBadge(tweet);
        tweet.dataset.slopAnalyzed = 'error';
      }
      // Small delay between requests to be respectful of rate limits
      await new Promise(resolve => setTimeout(resolve, 100));
    }
    isProcessingQueue = false;
  }
  \<close>
  \<open>whileLoop\<close> runs the loop from its test to the next \<open>await\<close>, where the call stops
  and joins \<open>loops\<close>, or to the end of the function. \<open>resumeReply\<close> goes on from the
  reply to \<open>sendMessage\<close>: the promise is rejected, or the reply cannot be read (both end
  in the \<open>catch\<close>), or it is resolved with the reply of \<open>handleAnalyzePost\<close>, whose
  \<open>error\<close> is tested for truth. An insertion of a badge that throws ends in the
  \<open>catch\<close> too. \<open>sleep\<close> is the last statement of the loop's body.
\<close>

definition suspend :: "suspended \<Rightarrow> page \<Rightarrow> page" where
  "suspend c s = s\<lparr>loops := loops s @ [c]\<rparr>"

definition record_action :: "action \<Rightarrow> page \<Rightarrow> page" where
  "record_action a s = s\<lparr>trace := trace s @ [a]\<rparr>"

definition sleep :: "page \<Rightarrow> page" where
  "sleep s = suspend AwaitDelay (record_action (Delay 100) s)"

function whileLoop :: "page \<Rightarrow> page" where
  "whileLoop s =
     (case analysisQueue s of
        [] \<Rightarrow> s\<lparr>isProcessingQueue := False\<rparr>
      | it # rest \<Rightarrow>
          let s1 = record_action (Shift it) (s\<lparr>analysisQueue := rest\<rparr>)
          in if tweet it \<notin> set (document s1) then whileLoop s1
             else if insertThrows s1 (tweet it)
               then sleep (setTag (tweet it) (js ''error'')
                      (removeBadge (tweet it) (injectLoadingBadge (tweet it) s1)))
               else suspend (AwaitReply it)
                      (record_action (SendMessage (itemText it))
                         (injectLoadingBadge (tweet it) s1)))"
  by pat_completeness auto
termination
  by (relation "measure (length \<circ> analysisQueue)") (auto simp add: record_action_def)

definition processQueue :: "page \<Rightarrow> page" where
  "processQueue s =
     (if isProcessingQueue s \<or> analysisQueue s = [] then s
      else whileLoop (s\<lparr>isProcessingQueue := True\<rparr>))"

datatype settled = Resolved reply | Rejected

definition hasError :: "reply \<Rightarrow> bool" where
  "hasError r = (case r of Failure m \<Rightarrow> m \<noteq> [] | Result l x \<Rightarrow> False)"

definition resumeReply :: "item \<Rightarrow> settled \<Rightarrow> page \<Rightarrow> page" where
  "resumeReply it r s =
     (case r of
        Rejected \<Rightarrow> sleep (setTag (tweet it) (js ''error'') (removeBadge (tweet it) s))
      | Resolved result \<Rightarrow>
          if hasError result
          then whileLoop (setTag (tweet it) (js ''error'') (removeBadge (tweet it) s))
          else
            let s1 = s\<lparr>analyzedPosts := (analyzedPosts s)(postId it \<mapsto> result)\<rparr>;
                s2 = injectBadge (tweet it) result s1
            in if insertThrows s1 (tweet it)
               then sleep (setTag (tweet it) (js ''error'') (removeBadge (tweet it) s2))
               else sleep (setTag (tweet it) (js ''complete'') s2))"

subsection \<open>\<open>processTweets\<close>\<close>

text \<open>
  \<^verbatim>\<open>
  function processTweets() {
    const tweets = document.querySelectorAll('article[data-testid="tweet"]');
    for (const tweet of tweets) {
      if (tweet.dataset.slopAnalyzed) {
        continue;
      }
      tweet.dataset.slopAnalyzed = 'pending';
      const textElement = tweet.querySelector('[data-testid="tweetText"]');
      if (!textElement) {
        tweet.dataset.slopAnalyzed = 'no-text';
        continue;
      }
      const text = textElement.innerText.trim();
      if (text.length < 20) {
        tweet.dataset.slopAnalyzed = 'too-short';
        continue;
      }
      const postId = hashString(text);
      if (analyzedPosts.has(postId)) {
        const cached = analyzedPosts.get(postId);
        injectBadge(tweet, cached);
        tweet.dataset.slopAnalyzed = 'cached';
        continue;
      }
      analysisQueue.push({ tweet, text, postId });
      processQueue();
    }
  }
  \<close>
  \<open>enqueue\<close> is the last two statements, \<open>scanTweet\<close> the body of the loop: the
  state it leaves, also when \<open>injectBadge\<close> throws in it, which \<open>scanThrows\<close> tells.
  Nothing catches that exception, and the scan ends there (\<open>scanTweets\<close>).
\<close>

definition enqueue :: "item \<Rightarrow> page \<Rightarrow> page" where
  "enqueue it s =
     processQueue (record_action (Push it) (s\<lparr>analysisQueue := analysisQueue s @ [it]\<rparr>))"

definition scanTweet :: "nat \<Rightarrow> page \<Rightarrow> page" where
  "scanTweet t s =
     (if tagged s t then s
      else
        let s1 = setTag t (js ''pending'') s
        in (case tweetText (elements s1 t) of
              None \<Rightarrow> setTag t (js ''no-text'') s1
            | Some innerText \<Rightarrow>
                let text = trim innerText
                in if length text < 20 then setTag t (js ''too-short'') s1
                   else
                     let pid = hashString text
                     in (case analyzedPosts s1 pid of
                           Some cached \<Rightarrow>
                             if insertThrows s1 t then injectBadge t cached s1
                             else setTag t (js ''cached'') (injectBadge t cached s1)
                         | None \<Rightarrow> enqueue \<lparr>tweet = t, itemText = text, postId = pid\<rparr> s1)))"

definition scanThrows :: "nat \<Rightarrow> page \<Rightarrow> bool" where
  "scanThrows t s =
     (\<not> tagged s t
      \<and> (case tweetText (elements s t) of
            None \<Rightarrow> False
          | Some innerText \<Rightarrow>
              \<not> length (trim innerText) < 20
              \<and> analyzedPosts s (hashString (trim innerText)) \<noteq> None
              \<and> insertThrows s t))"

fun scanTweets :: "nat list \<Rightarrow> page \<Rightarrow> page" where
  "scanTweets [] s = s"
| "scanTweets (t # ts) s =
     (if scanThrows t s then scanTweet t s else scanTweets ts (scanTweet t s))"

definition processTweets :: "page \<Rightarrow> page" where
  "processTweets s = scanTweets (document s) s"

subsection \<open>Events and runs\<close>

text \<open>
  The script runs on one thread, one event at a time, each to its end or to its next
  \<open>await\<close>: a scan (at start, or when the debounce timer of the observer fires); the reply
  to the message of the \<open>k\<close>-th stopped call; the end of the delay of the \<open>k\<close>-th
  stopped call; and what the page does on its own: it changes which tweets are in the
  document, the text of one, or what is around the Grok button of one. The page leaves
  \<open>dataset.slopAnalyzed\<close> and the badges to the script. An event that names no stopped
  call of its kind changes nothing.
  \<open>run\<close> is a sequence of events, in any order: an interleaving of scans and queue
  processing.
\<close>

datatype event =
    Scan
  | Reply nat settled
  | Timeout nat
  | DomChange "nat list"
  | TextChange nat "jsstring option"
  | GrokChange nat grok

definition dropNth :: "nat \<Rightarrow> 'a list \<Rightarrow> 'a list" where
  "dropNth k xs = take k xs @ drop (Suc k) xs"

fun step :: "event \<Rightarrow> page \<Rightarrow> page" where
  "step Scan s = processTweets s"
| "step (Reply k r) s =
     (if k < length (loops s)
      then (case loops s ! k of
              AwaitReply it \<Rightarrow> resumeReply it r (s\<lparr>loops := dropNth k (loops s)\<rparr>)
            | AwaitDelay \<Rightarrow> s)
      else s)"
| "step (Timeout k) s =
     (if k < length (loops s)
      then (case loops s ! k of
              AwaitDelay \<Rightarrow> whileLoop (s\<lparr>loops := dropNth k (loops s)\<rparr>)
            | AwaitReply it \<Rightarrow> s)
      else s)"
| "step (DomChange ts) s = s\<lparr>document := ts\<rparr>"
| "step (TextChange t v) s =
     s\<lparr>elements := (elements s)(t := (elements s t)\<lparr>tweetText := v\<rparr>)\<rparr>"
| "step (GrokChange t g) s =
     s\<lparr>elements := (elements s)(t := (elements s t)\<lparr>grok := g\<rparr>)\<rparr>"

fun isTimeout :: "event \<Rightarrow> bool" where
  "isTimeout (Timeout k) = True"
| "isTimeout e = False"

fun run :: "event list \<Rightarrow> page \<Rightarrow> page" where
  "run [] s = s"
| "run (e # es) s = run es (step e s)"

text \<open>
  The state when the script is loaded: nothing tagged, cached, queued or running, and no
  badge in the page. The tweets have no Grok button until the page gives them one
  (\<open>GrokChange\<close>), which it can do before the first scan.
\<close>

definition freshPage :: "nat list \<Rightarrow> (nat \<Rightarrow> jsstring option) \<Rightarrow> page" where
  "freshPage ts texts =
     \<lparr>document = ts,
      elements = (\<lambda>t. \<lparr>tweetText = texts t, slopAnalyzed = None, badge = None,
                        grok = NoGrokButton, strayBadges = []\<rparr>),
      analyzedPosts = Map.empty,
      analysisQueue = [],
      isProcessingQueue = False,
      loops = [],
      trace = []\<rparr>"

subsection \<open>Reading a trace and a state\<close>

fun pushed :: "action \<Rightarrow> item list" where
  "pushed (Push it) = [it]"
| "pushed a = []"

fun shifted :: "action \<Rightarrow> item list" where
  "shifted (Shift it) = [it]"
| "shifted a = []"

fun sent :: "action \<Rightarrow> jsstring list" where
  "sent (SendMessage m) = [m]"
| "sent a = []"

definition pushes :: "action list \<Rightarrow> item list" where
  "pushes tr = concat (map pushed tr)"

definition shifts :: "action list \<Rightarrow> item list" where
  "shifts tr = concat (map shifted tr)"

definition sends :: "action list \<Rightarrow> jsstring list" where
  "sends tr = concat (map sent tr)"

fun awaitedItem :: "suspended \<Rightarrow> item list" where
  "awaitedItem (AwaitReply it) = [it]"
| "awaitedItem AwaitDelay = []"

text \<open>Whether a badge inserted for the tweet goes outside its article.\<close>

definition insertsOutside :: "page \<Rightarrow> nat \<Rightarrow> bool" where
  "insertsOutside s t =
     (case grok (elements s t) of
        NoGrokButton \<Rightarrow> False
      | NoContainer \<Rightarrow> False
      | ContainerInside \<Rightarrow> False
      | ContainerOutside root \<Rightarrow> True)"

text \<open>The items in flight (sent, not answered) and all items not yet done with.\<close>

definition inFlight :: "page \<Rightarrow> item list" where
  "inFlight s = concat (map awaitedItem (loops s))"

definition pendingItems :: "page \<Rightarrow> item list" where
  "pendingItems s = inFlight s @ analysisQueue s"

text \<open>
  What holds of every state a run reaches from a fresh page (\<open>consistent\<close>), and of the
  states inside \<open>processQueue\<close> while it runs (\<open>running\<close>).
\<close>

definition queueInv :: "page \<Rightarrow> bool" where
  "queueInv s \<longleftrightarrow>
     distinct (map tweet (pendingItems s))
     \<and> (\<forall>it \<in> set (pendingItems s). slopAnalyzed (elements s (tweet it)) = Some (js ''pending''))
     \<and> pushes (trace s) = shifts (trace s) @ analysisQueue s"

definition consistent :: "page \<Rightarrow> bool" where
  "consistent s \<longleftrightarrow>
     (isProcessingQueue s \<longleftrightarrow> loops s \<noteq> [])
     \<and> length (loops s) \<le> 1
     \<and> (\<not> isProcessingQueue s \<longrightarrow> analysisQueue s = [])
     \<and> queueInv s"

definition running :: "page \<Rightarrow> bool" where
  "running s \<longleftrightarrow> isProcessingQueue s \<and> loops s = [] \<and> queueInv s"

section \<open>Example inputs\<close>

text \<open>
  The post of the specification's second scenario, and a classification of it.
\<close>

definition sampleText :: jsstring where
  "sampleText =
     js ''Breaking: this isn'' @ [39] @ js ''t just news. It'' @ [39] @ js ''s a revolution.''"

definition sampleResult :: reply where
  "sampleResult = Result (JStr (js ''high'')) (JStr (js ''reframing pattern''))"

definition sampleItem :: "nat \<Rightarrow> item" where
  "sampleItem t = \<lparr>tweet = t, itemText = trim sampleText, postId = hashString (trim sampleText)\<rparr>"

text \<open>
  A browser in which nothing fails: the provider answers with one choice whose content
  parses to the classification above.
\<close>

definition okEnv :: env where
  "okEnv =
     \<lparr>settingsGet = None,
      now_before = 5000,
      now_after = 5000,
      fetched = Inr \<lparr>ok = True, status = 200,
        json = Inr (JObj [(js ''choices'',
                 JArr [JObj [(js ''message'', JObj [(js ''content'', JStr (js ''{}''))])]])])\<rparr>,
      JSON_parse = (\<lambda>s. Inr (JObj [(js ''likelihood'', JStr (js ''high'')),
                                     (js ''reason'', JStr (js ''reframing pattern''))])),
      statsGet = None,
      statsSet = None\<rparr>"

text \<open>The same browser, with a provider that answers 401 and an error message.\<close>

definition env401 :: env where
  "env401 =
     okEnv\<lparr>fetched := Inr \<lparr>ok = False, status = 401,
        json = Inr (JObj [(js ''error'',
                 JObj [(js ''message'', JStr (js ''Incorrect API key provided''))])])\<rparr>\<rparr>"

text \<open>
  The same browser, with a provider that answers 400 and an error whose message is an empty
  array.
\<close>

definition env400 :: env where
  "env400 =
     okEnv\<lparr>fetched := Inr \<lparr>ok = False, status = 400,
        json = Inr (JObj [(js ''error'', JObj [(js ''message'', JArr [])])])\<rparr>\<rparr>"

text \<open>Workers with a key, switched off, and without a key.\<close>

definition keyedWorker :: worker where
  "keyedWorker =
     \<lparr>lastRequestTime = 0,
      storage = \<lparr>stored_apiKey = Some (js ''sk-test''), stored_enabled = None,
                 stored_stats = None\<rparr>,
      effects = []\<rparr>"

definition disabledWorker :: worker where
  "disabledWorker = keyedWorker\<lparr>storage := (storage keyedWorker)\<lparr>stored_enabled := Some False\<rparr>\<rparr>"

definition noKeyWorker :: worker where
  "noKeyWorker = keyedWorker\<lparr>storage := (storage keyedWorker)\<lparr>stored_apiKey := None\<rparr>\<rparr>"

declare digitsRadix.simps [simp del]

section \<open>Properties of strings and of \<open>hashString\<close>\<close>

lemma js_eq_Nil [simp]: "js s = [] \<longleftrightarrow> s = []"
  by (simp add: js_def)

subsection \<open>\<open>ToInt32\<close> is truncation to 32 signed bits\<close>

lemma wrap_half:
  fixes H :: int
  assumes "0 < H" and M: "M = 2 * H"
  shows "(if x mod M \<ge> H then x mod M - M else x mod M) = (x + H) mod M - H"
proof -
  define m where "m = x mod M"
  have m: "0 \<le> m" "m < M" using assms by (simp_all add: m_def)
  have eq: "(x + H) mod M = (m + H) mod M"
    by (simp add: m_def mod_add_left_eq)
  have "(if m \<ge> H then m - M else m) = (m + H) mod M - H"
  proof (cases "m \<ge> H")
    case True
    have "(m + H) mod M = (m + H - M) mod M"
      by (simp only: minus_mod_self2)
    also have "\<dots> = m + H - M"
      using True m M by (intro mod_pos_pos_trivial) simp_all
    finally show ?thesis using True by simp
  next
    case False
    then have "(m + H) mod M = m + H"
      using m M by (intro mod_pos_pos_trivial) simp_all
    then show ?thesis using False by simp
  qed
  then show ?thesis unfolding eq m_def .
qed

lemma ToInt32_shift: "ToInt32 x = (x + 2 ^ 31) mod 2 ^ 32 - 2 ^ 31"
proof -
  have "ToInt32 x = (if x mod 4294967296 \<ge> 2147483648 then x mod 4294967296 - 4294967296
                     else x mod 4294967296)"
    by (simp add: ToInt32_def Let_def)
  also have "\<dots> = (x + 2147483648) mod 4294967296 - 2147483648"
    by (rule wrap_half) simp_all
  finally show ?thesis by simp
qed

lemma ToInt32_truncate32: "ToInt32 x = truncate32 x"
  by (simp add: truncate32_def int_word_sint ToInt32_shift)

lemma ToInt32_mod: "ToInt32 x mod 4294967296 = x mod 4294967296"
  by (simp add: ToInt32_def Let_def)

lemma ToInt32_cong: "x mod 4294967296 = y mod 4294967296 \<Longrightarrow> ToInt32 x = ToInt32 y"
  by (simp add: ToInt32_def)

lemma ToInt32_range: "- (2 ^ 31) \<le> ToInt32 x \<and> ToInt32 x < 2 ^ 31"
proof -
  have "0 \<le> x mod 4294967296" "x mod 4294967296 < 4294967296" by simp_all
  then show ?thesis unfolding ToInt32_def Let_def by auto
qed

lemma bitAnd_same: "bitAnd x x = ToInt32 x"
  by (simp add: bitAnd_def)

subsection \<open>One iteration of the loop\<close>

lemma shiftLeft_5: "shiftLeft h 5 mod 4294967296 = (push_bit 5 h) mod 4294967296"
proof -
  have "shiftLeft h 5 mod 4294967296 = (ToInt32 h * 32) mod 4294967296"
    by (simp add: shiftLeft_def ToInt32_mod)
  also have "\<dots> = (h * 32) mod 4294967296"
    by (rule mod_mult_cong [OF ToInt32_mod refl])
  finally show ?thesis by (simp add: push_bit_eq_mult)
qed

lemma hash_step:
  "bitAnd (shiftLeft h 5 - h + c) (shiftLeft h 5 - h + c) = truncate32 (push_bit 5 h - h + c)"
proof -
  have "(shiftLeft h 5 - h + c) mod 4294967296 = (push_bit 5 h - h + c) mod 4294967296"
    by (rule mod_add_cong [OF mod_diff_cong [OF shiftLeft_5 refl] refl])
  then have "ToInt32 (shiftLeft h 5 - h + c) = ToInt32 (push_bit 5 h - h + c)"
    by (rule ToInt32_cong)
  then show ?thesis by (simp add: bitAnd_same ToInt32_truncate32)
qed

lemma hashLoop_foldl:
  "hashLoop cs h = foldl (\<lambda>hash c. truncate32 ((push_bit 5 hash - hash) + uint c)) h cs"
  by (induction cs arbitrary: h) (simp_all add: Let_def hash_step)

lemma hashLoop_foldHash: "hashLoop T 0 = foldHash T"
  by (simp add: hashLoop_foldl foldHash_def)

lemma foldHash_range: "- (2 ^ 31) \<le> foldHash T \<and> foldHash T < 2 ^ 31"
proof (cases T rule: rev_cases)
  case Nil
  then show ?thesis by (simp add: foldHash_def)
next
  case (snoc ys y)
  then show ?thesis
    using ToInt32_range by (simp add: foldHash_def ToInt32_truncate32 [symmetric])
qed

subsection \<open>The rendering can be read back\<close>

lemma digitUnit_cases:
  assumes "0 \<le> d" "d < 36"
  shows "uint (digitUnit d) = (if d < 10 then 48 + d else 87 + d)"
proof -
  define k where "k = (if d < 10 then 48 + d else 87 + d)"
  have "digitUnit d = word_of_int k"
    by (simp add: digitUnit_def k_def)
  moreover have "0 \<le> k" "k < 2 ^ 16"
    using assms by (simp_all add: k_def)
  ultimately have "uint (digitUnit d) = k"
    by (simp add: uint_word_of_int take_bit_int_eq_self)
  then show ?thesis by (simp add: k_def)
qed

lemma digitValue_digitUnit: "0 \<le> d \<Longrightarrow> d < 36 \<Longrightarrow> digitValue (digitUnit d) = d"
  using digitUnit_cases [of d]
  by (simp add: digitValue_def word_le_def split: if_splits)

lemma digitUnit_not_minus: "0 \<le> d \<Longrightarrow> d < 36 \<Longrightarrow> digitUnit d \<noteq> 45"
proof
  assume d: "0 \<le> d" "d < 36" and "digitUnit d = 45"
  then have "uint (digitUnit d) = 45" by simp
  then show False using digitUnit_cases [OF d] d by (simp split: if_splits)
qed

lemma parseDigits_snoc: "parseDigits r (s @ [c]) = parseDigits r s * r + digitValue c"
  by (simp add: parseDigits_def)

lemma parseDigits_digitsRadix:
  "2 \<le> r \<Longrightarrow> r \<le> 36 \<Longrightarrow> 0 \<le> n \<Longrightarrow> parseDigits r (digitsRadix r n) = n"
proof (induction r n rule: digitsRadix.induct)
  case (1 r n)
  show ?case
  proof (cases "n < r")
    case True
    then show ?thesis
      using "1.prems" by (simp add: digitsRadix.simps [of r n] parseDigits_def digitValue_digitUnit)
  next
    case False
    then have "parseDigits r (digitsRadix r (n div r)) = n div r"
      using "1.IH" "1.prems" by (simp add: pos_imp_zdiv_nonneg_iff)
    moreover have "n mod r < r"
      using "1.prems" by (intro pos_mod_bound) simp
    then have "n mod r < 36"
      using "1.prems" by linarith
    moreover have "0 \<le> n mod r"
      using "1.prems" by simp
    ultimately show ?thesis
      using False "1.prems"
      by (simp add: digitsRadix.simps [of r n] parseDigits_snoc digitValue_digitUnit)
  qed
qed

lemma hd_digitsRadix:
  "2 \<le> r \<Longrightarrow> r \<le> 36 \<Longrightarrow> 0 \<le> n \<Longrightarrow>
     \<exists>d ds. 0 \<le> d \<and> d < 36 \<and> digitsRadix r n = digitUnit d # ds"
proof (induction r n rule: digitsRadix.induct)
  case (1 r n)
  show ?case
  proof (cases "n < r")
    case True
    then have "n < 36" using "1.prems" by simp
    then show ?thesis using True "1.prems" by (auto simp add: digitsRadix.simps [of r n])
  next
    case False
    then obtain d ds where "0 \<le> d" "d < 36" "digitsRadix r (n div r) = digitUnit d # ds"
      using "1.IH" "1.prems" by (auto simp add: pos_imp_zdiv_nonneg_iff)
    then show ?thesis using False "1.prems" by (auto simp add: digitsRadix.simps [of r n])
  qed
qed

lemma parseInt_toStringRadix:
  assumes "2 \<le> r" "r \<le> 36"
  shows "parseInt r (toStringRadix r x) = x"
proof (cases "x < 0")
  case True
  then show ?thesis
    using assms by (simp add: parseInt_def toStringRadix_def parseDigits_digitsRadix)
next
  case False
  then obtain d ds where d: "0 \<le> d" "d < 36" "digitsRadix r x = digitUnit d # ds"
    using hd_digitsRadix [OF assms, of x] by auto
  have "parseInt r (digitsRadix r x) = parseDigits r (digitsRadix r x)"
    using d digitUnit_not_minus [of d] by (simp add: parseInt_def)
  then show ?thesis
    using False assms by (simp add: toStringRadix_def parseDigits_digitsRadix)
qed

lemma hashLoop_short: "hashLoop (js ''short'') 0 = 109413500"
  by code_simp

lemma hashString_short: "hashString (js ''short'') = js ''1t53zw''"
  unfolding hashString_def hashLoop_short
  by (simp add: toStringRadix_def digitsRadix.simps digitUnit_def js_def)

section \<open>Properties of the background worker\<close>


lemma andThen_Inr: "andThen x f = Inr y \<longleftrightarrow> (\<exists>v. x = Inr v \<and> f v = Inr y)"
  by (cases x) (simp_all add: andThen_def)

lemma parseContent_likelihood:
  "parseContent env content = Inr r \<Longrightarrow> likelihood r \<in> set (map JStr labels)"
  unfolding parseContent_def
  by (auto simp add: andThen_Inr split: jsval.splits if_splits)

lemma readResponse_likelihood:
  "readResponse env response = Inr r \<Longrightarrow> likelihood r \<in> set (map JStr labels)"
  unfolding readResponse_def
  by (auto simp add: andThen_Inr dest: parseContent_likelihood split: if_splits sum.splits)

lemma analyzeWithOpenAI_state:
  "snd (analyzeWithOpenAI env postText key w) = w\<lparr>effects := effects w @ [Fetch key postText]\<rparr>"
  by (simp add: analyzeWithOpenAI_def Let_def)

lemma analyzeWithOpenAI_likelihood:
  "analyzeWithOpenAI env postText key w = (Inr r, w') \<Longrightarrow> likelihood r \<in> set (map JStr labels)"
  by (auto simp add: analyzeWithOpenAI_def Let_def andThen_Inr dest: readResponse_likelihood)

lemma updateStats_Inl:
  "updateStats env l w = (Inl e, w') \<Longrightarrow> storage w' = storage w"
  by (auto simp add: updateStats_def Let_def split: sum.splits option.splits)

lemma updateStats_Inr:
  "updateStats env l w = (Inr u, w') \<Longrightarrow>
     w' = w\<lparr>effects := effects w @
               [StorageSet (postIncrement (ToString l)
                  (postIncrement (js ''totalAnalyzed'') (statsOrDefault (storage w))))],
            storage := (storage w)\<lparr>stored_stats :=
               Some (postIncrement (ToString l)
                  (postIncrement (js ''totalAnalyzed'') (statsOrDefault (storage w))))\<rparr>\<rparr>"
  by (auto simp add: updateStats_def getStats_def Let_def split: sum.splits option.splits)


lemma tryAnalyzePost_Result:
  assumes "tryAnalyzePost env postText w = (Inr (Result l r), w')"
  shows "\<exists>settings res w3.
           getSettings env w = Inr settings \<and> enabled settings \<and> apiKey settings \<noteq> []
           \<and> analyzeWithOpenAI env postText (apiKey settings) (rateLimit env w) = (Inr res, w3)
           \<and> l = likelihood res \<and> r = reason res
           \<and> updateStats env l w3 = (Inr (), w')"
  using assms unfolding tryAnalyzePost_def
  by (auto split: sum.splits if_splits prod.splits)

lemma tryAnalyzePost_Result_likelihood:
  assumes "tryAnalyzePost env postText w = (Inr (Result l r), w')"
  shows "l \<in> set (map JStr labels)"
  using tryAnalyzePost_Result [OF assms] analyzeWithOpenAI_likelihood by blast

lemma handleAnalyzePost_Result:
  "handleAnalyzePost env postText w = (Inr (Result l r), w')
     \<longleftrightarrow> tryAnalyzePost env postText w = (Inr (Result l r), w')"
  by (auto simp add: handleAnalyzePost_def split: prod.splits sum.splits)

lemma handleAnalyzePost_Inr: "\<exists>r w'. handleAnalyzePost env postText w = (Inr r, w')"
  by (auto simp add: handleAnalyzePost_def split: prod.splits sum.splits)

lemma rateLimit_storage [simp]: "storage (rateLimit env w) = storage w"
  by (simp add: rateLimit_def Let_def)

lemma analyzeWithOpenAI_storage:
  "analyzeWithOpenAI env postText key w = (x, w') \<Longrightarrow> storage w' = storage w"
  by (auto simp add: analyzeWithOpenAI_def Let_def)

lemma tryAnalyzePost_Inl_storage:
  "tryAnalyzePost env postText w = (Inl e, w') \<Longrightarrow> storage w' = storage w"
  unfolding tryAnalyzePost_def Let_def
  by (auto split: sum.splits if_splits prod.splits
      dest!: updateStats_Inl analyzeWithOpenAI_storage)

lemma tryAnalyzePost_Failure_state:
  "tryAnalyzePost env postText w = (Inr (Failure m), w') \<Longrightarrow> w' = w"
  unfolding tryAnalyzePost_def Let_def
  by (auto split: sum.splits if_splits prod.splits)

lemma handleAnalyzePost_Failure_storage:
  "handleAnalyzePost env postText w = (Inr (Failure m), w') \<Longrightarrow> storage w' = storage w"
  by (auto simp add: handleAnalyzePost_def split: prod.splits sum.splits
      dest: tryAnalyzePost_Inl_storage tryAnalyzePost_Failure_state)

lemma storageWrites_append: "storageWrites (xs @ ys) = storageWrites xs @ storageWrites ys"
  by (simp add: storageWrites_def)

lemma storageWrites_rateLimit: "storageWrites (effects (rateLimit env w)) = storageWrites (effects w)"
  by (simp add: rateLimit_def Let_def storageWrites_def)

lemma postIncrement_same: "postIncrement k s k = Some (increment (s k))"
  by (simp add: postIncrement_def)

lemma postIncrement_other: "k' \<noteq> k \<Longrightarrow> postIncrement k s k' = s k'"
  by (simp add: postIncrement_def)

lemma labels_not_total: "L \<in> set labels \<Longrightarrow> L \<noteq> js ''totalAnalyzed''"
  by (auto simp add: labels_def js_def)


subsection \<open>The examples, evaluated\<close>

lemma defaultStats_total: "defaultStats (js ''totalAnalyzed'') = Some (Number 0)"
  by (simp add: defaultStats_def js_def)

lemma defaultStats_high: "defaultStats (js ''high'') = Some (Number 0)"
  by (simp add: defaultStats_def js_def)

lemma defaultStats_low: "defaultStats (js ''low'') = Some (Number 0)"
  by (simp add: defaultStats_def js_def)

lemma low_is_other: "js ''low'' \<noteq> js ''totalAnalyzed''" "js ''low'' \<noteq> js ''high''"
  by (simp_all add: js_def)

lemma readResponse_okEnv:
  "andThen (fetched okEnv) (readResponse okEnv)
     = Inr \<lparr>likelihood = JStr (js ''high''), reason = JStr (js ''reframing pattern'')\<rparr>"
  by (simp add: okEnv_def readResponse_def andThen_def getProp_def getIndex0_def optProp_def
      nullish_def truthy_def parseContent_def labels_def js_def)

lemma handleAnalyzePost_okEnv:
  "\<exists>w'. handleAnalyzePost okEnv sampleText keyedWorker = (Inr sampleResult, w')"
proof -
  have s: "getSettings okEnv keyedWorker = Inr \<lparr>apiKey = js ''sk-test'', enabled = True\<rparr>"
    by (simp add: getSettings_def okEnv_def keyedWorker_def)
  have g: "statsGet okEnv = None" "statsSet okEnv = None"
    by (simp_all add: okEnv_def)
  show ?thesis
    by (simp add: handleAnalyzePost_def tryAnalyzePost_def s analyzeWithOpenAI_def Let_def
        readResponse_okEnv updateStats_def getStats_def g sampleResult_def)
qed

section \<open>Properties of the content script\<close>


declare whileLoop.simps [simp del]

lemma removeBadge_eq:
  "removeBadge t s = s\<lparr>elements := (elements s)(t := (elements s t)\<lparr>badge := None\<rparr>)\<rparr>"
proof (cases "badge (elements s t)")
  case None
  have "(elements s t)\<lparr>badge := badge (elements s t)\<rparr> = elements s t"
    by simp
  then have "(elements s t)\<lparr>badge := None\<rparr> = elements s t"
    unfolding None .
  then have "(elements s)(t := (elements s t)\<lparr>badge := None\<rparr>) = elements s"
    by simp
  then have "s\<lparr>elements := (elements s)(t := (elements s t)\<lparr>badge := None\<rparr>)\<rparr> = s"
    by simp
  then show ?thesis
    by (simp only: removeBadge_def None option.case)
next
  case (Some existing)
  then show ?thesis
    by (simp add: removeBadge_def)
qed

lemmas helper_defs =
  setTag_def removeBadge_eq suspend_def record_action_def sleep_def

lemmas inject_defs =
  injectLoadingBadge_def injectBadge_def insertBadge_def attach_def

lemma injectLoadingBadge_fields [simp]:
  "document (injectLoadingBadge t s) = document s"
  "analyzedPosts (injectLoadingBadge t s) = analyzedPosts s"
  "analysisQueue (injectLoadingBadge t s) = analysisQueue s"
  "isProcessingQueue (injectLoadingBadge t s) = isProcessingQueue s"
  "loops (injectLoadingBadge t s) = loops s"
  "trace (injectLoadingBadge t s) = trace s"
  "slopAnalyzed (elements (injectLoadingBadge t s) u) = slopAnalyzed (elements s u)"
  "tweetText (elements (injectLoadingBadge t s) u) = tweetText (elements s u)"
  "grok (elements (injectLoadingBadge t s) u) = grok (elements s u)"
  by (simp_all add: inject_defs removeBadge_eq split: grok.splits)

lemma injectLoadingBadge_other [simp]:
  "u \<noteq> t \<Longrightarrow> elements (injectLoadingBadge t s) u = elements s u"
  by (simp add: inject_defs removeBadge_eq split: grok.splits)

lemma injectBadge_fields [simp]:
  "document (injectBadge t r s) = document s"
  "analyzedPosts (injectBadge t r s) = analyzedPosts s"
  "analysisQueue (injectBadge t r s) = analysisQueue s"
  "isProcessingQueue (injectBadge t r s) = isProcessingQueue s"
  "loops (injectBadge t r s) = loops s"
  "trace (injectBadge t r s) = trace s"
  "slopAnalyzed (elements (injectBadge t r s) u) = slopAnalyzed (elements s u)"
  "tweetText (elements (injectBadge t r s) u) = tweetText (elements s u)"
  "grok (elements (injectBadge t r s) u) = grok (elements s u)"
  by (simp_all add: inject_defs removeBadge_eq split: grok.splits)

lemma injectBadge_other [simp]:
  "u \<noteq> t \<Longrightarrow> elements (injectBadge t r s) u = elements s u"
  by (simp add: inject_defs removeBadge_eq split: grok.splits)

lemma insertThrows_attached: "t \<in> set (document s) \<Longrightarrow> \<not> insertThrows s t"
  by (simp add: insertThrows_def split: grok.splits)


lemma pushes_append [simp]: "pushes (xs @ ys) = pushes xs @ pushes ys"
  by (simp add: pushes_def)

lemma shifts_append [simp]: "shifts (xs @ ys) = shifts xs @ shifts ys"
  by (simp add: shifts_def)

lemma sends_append [simp]: "sends (xs @ ys) = sends xs @ sends ys"
  by (simp add: sends_def)

lemma pushes_simps [simp]: "pushes [] = []" "pushes (a # tr) = pushed a @ pushes tr"
  by (simp_all add: pushes_def)

lemma shifts_simps [simp]: "shifts [] = []" "shifts (a # tr) = shifted a @ shifts tr"
  by (simp_all add: shifts_def)

lemma sends_simps [simp]: "sends [] = []" "sends (a # tr) = sent a @ sends tr"
  by (simp_all add: sends_def)

lemma whileLoop_Nil:
  "analysisQueue s = [] \<Longrightarrow> whileLoop s = s\<lparr>isProcessingQueue := False\<rparr>"
  by (simp add: whileLoop.simps [of s])

lemma whileLoop_detached:
  "analysisQueue s = it # rest \<Longrightarrow> tweet it \<notin> set (document s) \<Longrightarrow>
     whileLoop s = whileLoop (record_action (Shift it) (s\<lparr>analysisQueue := rest\<rparr>))"
  by (simp add: whileLoop.simps [of s] record_action_def)

lemma whileLoop_attached:
  "analysisQueue s = it # rest \<Longrightarrow> tweet it \<in> set (document s) \<Longrightarrow>
     whileLoop s =
       suspend (AwaitReply it)
         (record_action (SendMessage (itemText it))
            (injectLoadingBadge (tweet it)
               (record_action (Shift it) (s\<lparr>analysisQueue := rest\<rparr>))))"
  by (simp add: whileLoop.simps [of s] record_action_def Let_def insertThrows_def
      split: grok.splits)

lemma whileLoop_cases [case_names empty detached attached]:
  assumes "\<And>s. analysisQueue s = [] \<Longrightarrow> P s"
    and "\<And>s it rest. analysisQueue s = it # rest \<Longrightarrow> tweet it \<notin> set (document s) \<Longrightarrow>
           P (record_action (Shift it) (s\<lparr>analysisQueue := rest\<rparr>)) \<Longrightarrow> P s"
    and "\<And>s it rest. analysisQueue s = it # rest \<Longrightarrow> tweet it \<in> set (document s) \<Longrightarrow> P s"
  shows "P s"
proof (induction s rule: whileLoop.induct)
  case (1 s)
  show ?case
  proof (cases "analysisQueue s")
    case Nil
    then show ?thesis by (rule assms(1))
  next
    case (Cons it rest)
    show ?thesis
    proof (cases "tweet it \<in> set (document s)")
      case True
      with Cons show ?thesis by (rule assms(3))
    next
      case False
      have "document (record_action (Shift it) (s\<lparr>analysisQueue := rest\<rparr>)) = document s"
        by (simp add: record_action_def)
      with False Cons have "P (record_action (Shift it) (s\<lparr>analysisQueue := rest\<rparr>))"
        by (intro "1.IH") simp_all
      with Cons False show ?thesis by (rule assms(2))
    qed
  qed
qed

lemma running_whileLoop: "running s \<Longrightarrow> consistent (whileLoop s)"
proof (induction s rule: whileLoop_cases)
  case (empty s)
  then show ?case
    by (simp add: whileLoop_Nil running_def consistent_def queueInv_def pendingItems_def inFlight_def)
next
  case (detached s it rest)
  have "running (record_action (Shift it) (s\<lparr>analysisQueue := rest\<rparr>))"
    using detached.prems detached.hyps(1)
    by (simp add: running_def queueInv_def pendingItems_def inFlight_def record_action_def)
  then show ?case
    using detached by (simp add: whileLoop_detached)
next
  case (attached s it rest)
  then show ?case
    by (simp add: whileLoop_attached running_def consistent_def queueInv_def pendingItems_def
        inFlight_def helper_defs)
qed

lemma consistent_processQueue_idle:
  assumes "\<not> isProcessingQueue s" "loops s = []" "queueInv s"
  shows "consistent (processQueue s)"
proof (cases "analysisQueue s = []")
  case True
  then show ?thesis
    using assms by (simp add: processQueue_def consistent_def)
next
  case False
  have "running (s\<lparr>isProcessingQueue := True\<rparr>)"
    using assms by (simp add: running_def queueInv_def pendingItems_def inFlight_def)
  then show ?thesis
    using False assms by (simp add: processQueue_def running_whileLoop)
qed

lemma pending_tagged:
  "queueInv s \<Longrightarrow> it \<in> set (pendingItems s) \<Longrightarrow> tagged s (tweet it)"
  by (auto simp add: queueInv_def tagged_def)

lemma consistent_enqueue:
  assumes "consistent s" "tweet it \<notin> tweet ` set (pendingItems s)"
    "slopAnalyzed (elements s (tweet it)) = Some (js ''pending'')"
  shows "consistent (enqueue it s)"
proof (cases "isProcessingQueue s")
  case True
  then show ?thesis
    using assms
    by (auto simp add: enqueue_def processQueue_def consistent_def queueInv_def pendingItems_def
        inFlight_def record_action_def)
next
  case False
  then have "analysisQueue s = []" "loops s = []"
    using assms(1) by (simp_all add: consistent_def)
  then have "queueInv (record_action (Push it) (s\<lparr>analysisQueue := analysisQueue s @ [it]\<rparr>))"
    using assms by (simp add: consistent_def queueInv_def pendingItems_def inFlight_def record_action_def)
  then show ?thesis
    unfolding enqueue_def
    using False \<open>loops s = []\<close>
    by (intro consistent_processQueue_idle) (simp_all add: record_action_def)
qed

lemma consistent_retag:
  assumes "consistent s" "\<not> tagged s t"
  shows "consistent (s\<lparr>elements := (elements s)(t := e)\<rparr>)"
proof -
  have "tweet it \<noteq> t" if "it \<in> set (pendingItems s)" for it
    using pending_tagged [of s it] that assms by (auto simp add: consistent_def)
  then show ?thesis
    using assms(1)
    by (auto simp add: consistent_def queueInv_def pendingItems_def inFlight_def)
qed

lemma scanTweet_tagged: "tagged s t \<Longrightarrow> scanTweet t s = s"
  by (simp add: scanTweet_def)

lemma scanTweet_no_text:
  "\<not> tagged s t \<Longrightarrow> tweetText (elements s t) = None \<Longrightarrow>
     scanTweet t s =
       s\<lparr>elements := (elements s)(t := (elements s t)\<lparr>slopAnalyzed := Some (js ''no-text'')\<rparr>)\<rparr>"
  by (simp add: scanTweet_def setTag_def Let_def)

lemma scanTweet_too_short:
  "\<not> tagged s t \<Longrightarrow> tweetText (elements s t) = Some innerText \<Longrightarrow>
   length (trim innerText) < 20 \<Longrightarrow>
     scanTweet t s =
       s\<lparr>elements := (elements s)(t := (elements s t)\<lparr>slopAnalyzed := Some (js ''too-short'')\<rparr>)\<rparr>"
  by (simp add: scanTweet_def setTag_def Let_def)

lemma scanTweet_cached:
  "\<not> tagged s t \<Longrightarrow> tweetText (elements s t) = Some innerText \<Longrightarrow>
   \<not> length (trim innerText) < 20 \<Longrightarrow>
   analyzedPosts s (hashString (trim innerText)) = Some cached \<Longrightarrow>
   \<not> insertThrows s t \<Longrightarrow>
     scanTweet t s =
       s\<lparr>elements := (elements s)(t :=
           (if insertsOutside s t
            then (elements s t)
                   \<lparr>badge := None,
                    strayBadges := strayBadges (elements s t) @ [ResultBadge cached],
                    slopAnalyzed := Some (js ''cached'')\<rparr>
            else (elements s t)
                   \<lparr>badge := Some (ResultBadge cached), slopAnalyzed := Some (js ''cached'')\<rparr>))\<rparr>"
  by (auto simp add: scanTweet_def helper_defs inject_defs insertThrows_def insertsOutside_def
      Let_def split: grok.splits)

lemma scanTweet_cached_thrown:
  "\<not> tagged s t \<Longrightarrow> tweetText (elements s t) = Some innerText \<Longrightarrow>
   \<not> length (trim innerText) < 20 \<Longrightarrow>
   analyzedPosts s (hashString (trim innerText)) = Some cached \<Longrightarrow>
   insertThrows s t \<Longrightarrow>
     scanTweet t s =
       s\<lparr>elements := (elements s)(t := (elements s t)
           \<lparr>slopAnalyzed := Some (js ''pending''), badge := None\<rparr>)\<rparr>"
  by (auto simp add: scanTweet_def helper_defs inject_defs insertThrows_def Let_def
      split: grok.splits)

lemma scanTweet_cached_element:
  assumes "\<not> tagged s t" "tweetText (elements s t) = Some innerText"
    "\<not> length (trim innerText) < 20"
    "analyzedPosts s (hashString (trim innerText)) = Some cached"
  obtains e where "scanTweet t s = s\<lparr>elements := (elements s)(t := e)\<rparr>"
    and "tweetText e = Some innerText" and "slopAnalyzed e \<noteq> None"
proof (cases "insertThrows s t")
  case True
  show ?thesis
    by (rule that [OF scanTweet_cached_thrown [OF assms True]]) (simp_all add: assms(2))
next
  case False
  show ?thesis
    by (rule that [OF scanTweet_cached [OF assms False]]) (simp_all add: assms(2))
qed

lemma scanTweet_miss:
  "\<not> tagged s t \<Longrightarrow> tweetText (elements s t) = Some innerText \<Longrightarrow>
   \<not> length (trim innerText) < 20 \<Longrightarrow>
   analyzedPosts s (hashString (trim innerText)) = None \<Longrightarrow>
     scanTweet t s =
       enqueue \<lparr>tweet = t, itemText = trim innerText, postId = hashString (trim innerText)\<rparr>
         (setTag t (js ''pending'') s)"
  by (simp add: scanTweet_def setTag_def Let_def)

lemma consistent_scanTweet:
  assumes "consistent s"
  shows "consistent (scanTweet t s)"
proof (cases "tagged s t")
  case True
  then show ?thesis using assms by (simp add: scanTweet_tagged)
next
  case untagged: False
  show ?thesis
  proof (cases "tweetText (elements s t)")
    case None
    then show ?thesis
      using assms untagged by (simp add: scanTweet_no_text consistent_retag)
  next
    case (Some innerText)
    show ?thesis
    proof (cases "length (trim innerText) < 20")
      case True
      then show ?thesis
        using assms untagged Some by (simp add: scanTweet_too_short consistent_retag)
    next
      case long: False
      show ?thesis
      proof (cases "analyzedPosts s (hashString (trim innerText))")
        case (Some cached)
        obtain e where "scanTweet t s = s\<lparr>elements := (elements s)(t := e)\<rparr>"
          using untagged \<open>tweetText (elements s t) = Some innerText\<close> long Some
          by (rule scanTweet_cached_element)
        then show ?thesis
          using assms untagged by (simp add: consistent_retag)
      next
        case None
        let ?s1 = "setTag t (js ''pending'') s"
        let ?it = "\<lparr>tweet = t, itemText = trim innerText, postId = hashString (trim innerText)\<rparr>"
        have c1: "consistent ?s1"
          using assms untagged by (simp add: setTag_def consistent_retag)
        have "tweet it \<noteq> t" if "it \<in> set (pendingItems s)" for it
          using pending_tagged [of s it] that assms untagged by (auto simp add: consistent_def)
        then have "tweet ?it \<notin> tweet ` set (pendingItems ?s1)"
          by (auto simp add: pendingItems_def inFlight_def setTag_def)
        moreover have "slopAnalyzed (elements ?s1 (tweet ?it)) = Some (js ''pending'')"
          by (simp add: setTag_def)
        ultimately have "consistent (enqueue ?it ?s1)"
          using c1 by (rule consistent_enqueue [rotated 1])
        then show ?thesis
          using untagged long None \<open>tweetText (elements s t) = Some innerText\<close>
          by (simp add: scanTweet_miss)
      qed
    qed
  qed
qed

lemma consistent_fold_scanTweet: "consistent s \<Longrightarrow> consistent (fold scanTweet ts s)"
  by (induction ts arbitrary: s) (simp_all add: consistent_scanTweet)

subsection \<open>What the loop leaves alone\<close>

lemma whileLoop_frame:
  "document (whileLoop s) = document s
   \<and> analyzedPosts (whileLoop s) = analyzedPosts s
   \<and> pushes (trace (whileLoop s)) = pushes (trace s)
   \<and> (\<forall>u. slopAnalyzed (elements (whileLoop s) u) = slopAnalyzed (elements s u))
   \<and> (\<forall>u. tweetText (elements (whileLoop s) u) = tweetText (elements s u))"
proof (induction s rule: whileLoop_cases)
  case (empty s)
  then show ?case by (simp add: whileLoop_Nil)
next
  case (detached s it rest)
  then show ?case by (simp add: whileLoop_detached record_action_def)
next
  case (attached s it rest)
  then show ?case by (simp add: whileLoop_attached helper_defs)
qed

lemma whileLoop_element:
  "u \<notin> tweet ` set (analysisQueue s) \<Longrightarrow> elements (whileLoop s) u = elements s u"
proof (induction s rule: whileLoop_cases)
  case (empty s)
  then show ?case by (simp add: whileLoop_Nil)
next
  case (detached s it rest)
  then show ?case by (simp add: whileLoop_detached record_action_def)
next
  case (attached s it rest)
  then show ?case by (auto simp add: whileLoop_attached helper_defs)
qed

lemma whileLoop_tagged [simp]: "tagged (whileLoop s) u = tagged s u"
  using whileLoop_frame [of s] by (simp add: tagged_def)

lemma processQueue_frame:
  "document (processQueue s) = document s
   \<and> analyzedPosts (processQueue s) = analyzedPosts s
   \<and> pushes (trace (processQueue s)) = pushes (trace s)
   \<and> (\<forall>u. slopAnalyzed (elements (processQueue s) u) = slopAnalyzed (elements s u))
   \<and> (\<forall>u. tweetText (elements (processQueue s) u) = tweetText (elements s u))"
  using whileLoop_frame [of "s\<lparr>isProcessingQueue := True\<rparr>"]
  by (simp add: processQueue_def)

lemma enqueue_frame:
  "document (enqueue it s) = document s
   \<and> analyzedPosts (enqueue it s) = analyzedPosts s
   \<and> pushes (trace (enqueue it s)) = pushes (trace s) @ [it]
   \<and> (\<forall>u. slopAnalyzed (elements (enqueue it s) u) = slopAnalyzed (elements s u))
   \<and> (\<forall>u. tweetText (elements (enqueue it s) u) = tweetText (elements s u))"
  using processQueue_frame [of "record_action (Push it) (s\<lparr>analysisQueue := analysisQueue s @ [it]\<rparr>)"]
  by (simp add: enqueue_def record_action_def)

lemma scanTweet_cases [consumes 0, case_names tagged no_text too_short cached miss]:
  assumes "tagged s t \<Longrightarrow> P"
    and "\<not> tagged s t \<Longrightarrow> tweetText (elements s t) = None \<Longrightarrow> P"
    and "\<And>innerText. \<not> tagged s t \<Longrightarrow> tweetText (elements s t) = Some innerText \<Longrightarrow>
           length (trim innerText) < 20 \<Longrightarrow> P"
    and "\<And>innerText cached. \<not> tagged s t \<Longrightarrow> tweetText (elements s t) = Some innerText \<Longrightarrow>
           \<not> length (trim innerText) < 20 \<Longrightarrow>
           analyzedPosts s (hashString (trim innerText)) = Some cached \<Longrightarrow> P"
    and "\<And>innerText. \<not> tagged s t \<Longrightarrow> tweetText (elements s t) = Some innerText \<Longrightarrow>
           \<not> length (trim innerText) < 20 \<Longrightarrow>
           analyzedPosts s (hashString (trim innerText)) = None \<Longrightarrow> P"
  shows P
  using assms by (cases "tweetText (elements s t)"; cases "analyzedPosts s (hashString (trim (the (tweetText (elements s t)))))") auto

lemma scanTweet_frame:
  "document (scanTweet t s) = document s
   \<and> analyzedPosts (scanTweet t s) = analyzedPosts s
   \<and> (\<forall>u. tweetText (elements (scanTweet t s) u) = tweetText (elements s u))
   \<and> (\<forall>u. tagged s u \<longrightarrow> slopAnalyzed (elements (scanTweet t s) u) = slopAnalyzed (elements s u))
   \<and> (\<forall>u. u \<noteq> t \<longrightarrow> slopAnalyzed (elements (scanTweet t s) u) = slopAnalyzed (elements s u))"
proof (cases rule: scanTweet_cases [of s t])
  case tagged
  then show ?thesis by (simp add: scanTweet_tagged)
next
  case no_text
  then show ?thesis by (auto simp add: scanTweet_no_text)
next
  case (too_short innerText)
  then show ?thesis by (auto simp add: scanTweet_too_short)
next
  case (cached innerText cached)
  then obtain e where "scanTweet t s = s\<lparr>elements := (elements s)(t := e)\<rparr>"
    and "tweetText e = Some innerText"
    by (rule scanTweet_cached_element)
  then show ?thesis using cached by auto
next
  case (miss innerText)
  then show ?thesis
    using enqueue_frame [of _ "setTag t (js ''pending'') s"]
    by (auto simp add: scanTweet_miss setTag_def)
qed

lemma scanTweet_pushes_other:
  "tagged s u \<Longrightarrow> filter (\<lambda>x. tweet x = u) (pushes (trace (scanTweet t s)))
                  = filter (\<lambda>x. tweet x = u) (pushes (trace s))"
proof (cases rule: scanTweet_cases [of s t])
  case tagged
  then show ?thesis by (simp add: scanTweet_tagged)
next
  case no_text
  then show ?thesis by (simp add: scanTweet_no_text)
next
  case (too_short innerText)
  then show ?thesis by (simp add: scanTweet_too_short)
next
  case (cached innerText cached)
  then obtain e where "scanTweet t s = s\<lparr>elements := (elements s)(t := e)\<rparr>"
    by (rule scanTweet_cached_element)
  then show ?thesis by simp
next
  case (miss innerText)
  assume "tagged s u"
  then have "u \<noteq> t" using miss(1) by auto
  then show ?thesis
    using miss enqueue_frame [of _ "setTag t (js ''pending'') s"]
    by (simp add: scanTweet_miss setTag_def)
qed

lemma resumeReply_frame:
  "document (resumeReply it r s) = document s
   \<and> pushes (trace (resumeReply it r s)) = pushes (trace s)
   \<and> (\<forall>u. tweetText (elements (resumeReply it r s) u) = tweetText (elements s u))
   \<and> (\<forall>u. u \<noteq> tweet it \<longrightarrow>
          slopAnalyzed (elements (resumeReply it r s) u) = slopAnalyzed (elements s u))
   \<and> tagged (resumeReply it r s) (tweet it)
   \<and> (\<forall>k. analyzedPosts s k \<noteq> None \<longrightarrow> analyzedPosts (resumeReply it r s) k \<noteq> None)"
proof (cases r)
  case Rejected
  then show ?thesis by (simp add: resumeReply_def helper_defs tagged_def)
next
  case (Resolved result)
  show ?thesis
  proof (cases "hasError result")
    case True
    then show ?thesis
      using Resolved
        whileLoop_frame [of "setTag (tweet it) (js ''error'') (removeBadge (tweet it) s)"]
      by (simp add: resumeReply_def tagged_def) (simp add: helper_defs)
  next
    case False
    then show ?thesis
      using Resolved by (simp add: resumeReply_def helper_defs tagged_def Let_def)
  qed
qed

lemma fold_scanTweet_frame:
  "document (fold scanTweet ts s) = document s
   \<and> analyzedPosts (fold scanTweet ts s) = analyzedPosts s
   \<and> (\<forall>u. tweetText (elements (fold scanTweet ts s) u) = tweetText (elements s u))
   \<and> (\<forall>u. tagged s u \<longrightarrow>
          slopAnalyzed (elements (fold scanTweet ts s) u) = slopAnalyzed (elements s u))"
proof (induction ts arbitrary: s)
  case Nil
  show ?case by simp
next
  case (Cons t ts)
  have tg: "tagged (scanTweet t s) u" if "tagged s u" for u
    using scanTweet_frame [of t s] that by (simp add: tagged_def)
  show ?case
    using Cons.IH [of "scanTweet t s"] scanTweet_frame [of t s] tg by simp
qed

lemma fold_scanTweet_pushes:
  "tagged s u \<Longrightarrow> filter (\<lambda>x. tweet x = u) (pushes (trace (fold scanTweet ts s)))
                  = filter (\<lambda>x. tweet x = u) (pushes (trace s))"
proof (induction ts arbitrary: s)
  case Nil
  show ?case by simp
next
  case (Cons t ts)
  have "tagged (scanTweet t s) u"
    using scanTweet_frame [of t s] Cons.prems by (simp add: tagged_def)
  then show ?case
    using Cons.IH [of "scanTweet t s"] scanTweet_pushes_other [OF Cons.prems, of t] by simp
qed

lemma scanThrows_attached: "t \<in> set (document s) \<Longrightarrow> \<not> scanThrows t s"
  by (simp add: scanThrows_def insertThrows_attached split: option.splits)

lemma scanTweets_fold:
  "set ts \<subseteq> set (document s) \<Longrightarrow> scanTweets ts s = fold scanTweet ts s"
proof (induction ts arbitrary: s)
  case Nil
  show ?case by simp
next
  case (Cons t ts)
  have "document (scanTweet t s) = document s"
    using scanTweet_frame [of t s] by simp
  then have "scanTweets ts (scanTweet t s) = fold scanTweet ts (scanTweet t s)"
    using Cons.prems by (intro Cons.IH) simp
  moreover have "\<not> scanThrows t s"
    using Cons.prems by (simp add: scanThrows_attached)
  ultimately show ?case by simp
qed

lemma processTweets_fold: "processTweets s = fold scanTweet (document s) s"
  by (simp add: processTweets_def scanTweets_fold)

subsection \<open>What holds of every state a run reaches\<close>

lemma consistent_processTweets: "consistent s \<Longrightarrow> consistent (processTweets s)"
  by (simp add: processTweets_fold consistent_fold_scanTweet)

lemma consistent_loops:
  assumes "consistent s" "k < length (loops s)"
  shows "k = 0" "loops s = [loops s ! 0]" "isProcessingQueue s"
proof -
  from assms have "length (loops s) = 1" by (simp add: consistent_def)
  then show "k = 0" "loops s = [loops s ! 0]" using assms(2)
    by (auto simp add: length_Suc_conv)
  then show "isProcessingQueue s" using assms(1) by (auto simp add: consistent_def)
qed

lemma consistent_resumeReply:
  assumes "consistent s" "loops s = [AwaitReply it]"
  shows "consistent (resumeReply it r (s\<lparr>loops := []\<rparr>))"
proof -
  have flag: "isProcessingQueue s" using assms by (simp add: consistent_def)
  have q: "queueInv s" using assms by (simp add: consistent_def)
  have pend: "pendingItems s = it # analysisQueue s"
    using assms by (simp add: pendingItems_def inFlight_def)
  have others: "tweet x \<noteq> tweet it" if "x \<in> set (analysisQueue s)" for x
    using q pend that by (auto simp add: queueInv_def image_iff)
  have run: "running (s\<lparr>loops := [], elements := (elements s)(tweet it := e)\<rparr>)" for e
    using q pend flag others
    by (auto simp add: running_def queueInv_def pendingItems_def inFlight_def)
  show ?thesis
  proof (cases r)
    case Rejected
    then show ?thesis
      using q pend flag others
      by (auto simp add: resumeReply_def consistent_def queueInv_def pendingItems_def
          inFlight_def helper_defs)
  next
    case (Resolved result)
    show ?thesis
    proof (cases "hasError result")
      case True
      have "setTag (tweet it) (js ''error'') (removeBadge (tweet it) (s\<lparr>loops := []\<rparr>))
              = s\<lparr>loops := [], elements := (elements s)(tweet it :=
                    (elements s (tweet it))\<lparr>badge := None, slopAnalyzed := Some (js ''error'')\<rparr>)\<rparr>"
        by (simp add: helper_defs)
      then show ?thesis
        using True Resolved run by (simp add: resumeReply_def running_whileLoop)
    next
      case False
      then show ?thesis
        using Resolved q pend flag others
        by (auto simp add: resumeReply_def consistent_def queueInv_def pendingItems_def
            inFlight_def helper_defs Let_def)
    qed
  qed
qed

lemma consistent_step: "consistent s \<Longrightarrow> consistent (step e s)"
proof (cases e)
  case Scan
  assume "consistent s"
  then show ?thesis using Scan by (simp add: consistent_processTweets)
next
  case (Reply k r)
  assume c: "consistent s"
  show ?thesis
  proof (cases "k < length (loops s)")
    case True
    note l = consistent_loops [OF c True]
    show ?thesis
    proof (cases "loops s ! 0")
      case (AwaitReply it)
      then have "loops s = [AwaitReply it]" using l(2) by simp
      then show ?thesis
        using consistent_resumeReply [OF c, of it r] Reply l(1) by (simp add: dropNth_def)
    next
      case AwaitDelay
      then show ?thesis using c Reply True l(1) by simp
    qed
  next
    case False
    then show ?thesis using c Reply by simp
  qed
next
  case (Timeout k)
  assume c: "consistent s"
  show ?thesis
  proof (cases "k < length (loops s)")
    case True
    note l = consistent_loops [OF c True]
    show ?thesis
    proof (cases "loops s ! 0")
      case (AwaitReply it)
      then show ?thesis using c Timeout True l(1) by simp
    next
      case AwaitDelay
      then have ls: "loops s = [AwaitDelay]" using l(2) by simp
      have "running (s\<lparr>loops := []\<rparr>)"
        using c l(3) ls by (simp add: running_def consistent_def queueInv_def pendingItems_def inFlight_def)
      then show ?thesis
        using Timeout True l(1) AwaitDelay ls by (simp add: dropNth_def running_whileLoop)
    qed
  next
    case False
    then show ?thesis using c Timeout by simp
  qed
next
  case (DomChange ts)
  assume "consistent s"
  then show ?thesis
    using DomChange by (simp add: consistent_def queueInv_def pendingItems_def inFlight_def)
next
  case (TextChange t v)
  assume "consistent s"
  then show ?thesis
    using TextChange by (auto simp add: consistent_def queueInv_def pendingItems_def inFlight_def)
next
  case (GrokChange t g)
  assume "consistent s"
  then show ?thesis
    using GrokChange by (auto simp add: consistent_def queueInv_def pendingItems_def inFlight_def)
qed

lemma consistent_run: "consistent s \<Longrightarrow> consistent (run es s)"
  by (induction es arbitrary: s) (simp_all add: consistent_step)

lemma consistent_freshPage: "consistent (freshPage ts texts)"
  by (simp add: consistent_def queueInv_def pendingItems_def inFlight_def freshPage_def)

lemma consistent_reachable: "consistent (run es (freshPage ts texts))"
  by (simp add: consistent_run consistent_freshPage)

subsection \<open>What a tagged tweet and the cache keep\<close>

lemma step_tagged: "tagged s u \<Longrightarrow> tagged (step e s) u"
proof (cases e)
  case Scan
  assume "tagged s u"
  then show ?thesis
    using Scan fold_scanTweet_frame [of "document s" s]
    by (simp add: processTweets_fold tagged_def)
next
  case (Reply k r)
  assume t: "tagged s u"
  have "tagged (resumeReply it r s') u" if "tagged s' u" for it s'
    using resumeReply_frame [of it r s'] that by (cases "u = tweet it") (simp_all add: tagged_def)
  then show ?thesis
    using Reply t by (simp add: tagged_def split: suspended.splits)
next
  case (Timeout k)
  assume "tagged s u"
  then show ?thesis
    using Timeout by (simp add: tagged_def [of "_\<lparr>loops := _\<rparr>"] tagged_def [of s] split: suspended.splits)
next
  case (DomChange ts)
  assume "tagged s u"
  then show ?thesis using DomChange by (simp add: tagged_def)
next
  case (TextChange t v)
  assume "tagged s u"
  then show ?thesis using TextChange by (auto simp add: tagged_def)
next
  case (GrokChange t g)
  assume "tagged s u"
  then show ?thesis using GrokChange by (auto simp add: tagged_def)
qed

lemma step_pushes_tagged:
  "tagged s u \<Longrightarrow> filter (\<lambda>x. tweet x = u) (pushes (trace (step e s)))
                  = filter (\<lambda>x. tweet x = u) (pushes (trace s))"
proof (cases e)
  case Scan
  assume "tagged s u"
  then show ?thesis using Scan by (simp add: processTweets_fold fold_scanTweet_pushes)
next
  case (Reply k r)
  then show ?thesis
    using resumeReply_frame [of _ r "s\<lparr>loops := dropNth k (loops s)\<rparr>"]
    by (simp split: suspended.splits)
next
  case (Timeout k)
  then show ?thesis
    using whileLoop_frame [of "s\<lparr>loops := dropNth k (loops s)\<rparr>"]
    by (simp split: suspended.splits)
next
  case (DomChange ts)
  then show ?thesis by simp
next
  case (TextChange t v)
  then show ?thesis by simp
next
  case (GrokChange t g)
  then show ?thesis by simp
qed

lemma run_tagged: "tagged s u \<Longrightarrow> tagged (run es s) u"
  by (induction es arbitrary: s) (simp_all add: step_tagged)

lemma run_pushes_tagged:
  "tagged s u \<Longrightarrow> filter (\<lambda>x. tweet x = u) (pushes (trace (run es s)))
                  = filter (\<lambda>x. tweet x = u) (pushes (trace s))"
proof (induction es arbitrary: s)
  case Nil
  show ?case by simp
next
  case (Cons e es)
  then show ?case
    using step_tagged [of s u e] step_pushes_tagged [of s u e] by simp
qed

lemma step_cached: "analyzedPosts s k \<noteq> None \<Longrightarrow> analyzedPosts (step e s) k \<noteq> None"
proof (cases e)
  case Scan
  assume "analyzedPosts s k \<noteq> None"
  then show ?thesis
    using Scan fold_scanTweet_frame [of "document s" s] by (simp add: processTweets_fold)
next
  case (Reply j r)
  assume "analyzedPosts s k \<noteq> None"
  then show ?thesis
    using Reply resumeReply_frame [of _ r "s\<lparr>loops := dropNth j (loops s)\<rparr>"]
    by (simp split: suspended.splits)
next
  case (Timeout j)
  assume "analyzedPosts s k \<noteq> None"
  then show ?thesis
    using Timeout whileLoop_frame [of "s\<lparr>loops := dropNth j (loops s)\<rparr>"]
    by (simp split: suspended.splits)
next
  case (DomChange ts)
  assume "analyzedPosts s k \<noteq> None"
  then show ?thesis using DomChange by simp
next
  case (TextChange t v)
  assume "analyzedPosts s k \<noteq> None"
  then show ?thesis using TextChange by simp
next
  case (GrokChange t g)
  assume "analyzedPosts s k \<noteq> None"
  then show ?thesis using GrokChange by simp
qed

lemma run_cached: "analyzedPosts s k \<noteq> None \<Longrightarrow> analyzedPosts (run es s) k \<noteq> None"
proof (induction es arbitrary: s)
  case Nil
  then show ?case by simp
next
  case (Cons e es)
  from Cons.prems have "analyzedPosts (step e s) k \<noteq> None" by (rule step_cached)
  then have "analyzedPosts (run es (step e s)) k \<noteq> None" by (rule Cons.IH)
  then show ?case by simp
qed

subsection \<open>Lemmas for the claims\<close>

lemma sampleText_long [simp]: "\<not> length (trim sampleText) < 20"
  by (simp add: sampleText_def trim_def js_def isWhiteSpace_def)

lemmas run_defs =
  processTweets_fold scanTweet_def enqueue_def processQueue_def resumeReply_def
  whileLoop_Nil whileLoop_detached whileLoop_attached
  helper_defs inject_defs insertThrows_def tagged_def freshPage_def Let_def dropNth_def
  hasError_def sampleItem_def sampleResult_def

lemma inFlight_le: "length (loops s) \<le> 1 \<Longrightarrow> length (inFlight s) \<le> 1"
  by (cases "loops s"; cases "hd (loops s)") (auto simp add: inFlight_def)

lemma enqueue_idle:
  assumes "\<not> isProcessingQueue s" "analysisQueue s = []" "loops s = []"
  shows "shifts (trace (enqueue it s)) = shifts (trace s) @ [it]"
    and "tweet it \<in> set (document s) \<Longrightarrow>
           isProcessingQueue (enqueue it s) \<and> loops (enqueue it s) = [AwaitReply it]
           \<and> analysisQueue (enqueue it s) = []"
    and "tweet it \<notin> set (document s) \<Longrightarrow>
           \<not> isProcessingQueue (enqueue it s) \<and> loops (enqueue it s) = []
           \<and> analysisQueue (enqueue it s) = []"
proof -
  show "shifts (trace (enqueue it s)) = shifts (trace s) @ [it]"
    using assms
    by (cases "tweet it \<in> set (document s)")
       (simp_all add: enqueue_def processQueue_def whileLoop_attached whileLoop_detached
          whileLoop_Nil helper_defs)
  show "tweet it \<in> set (document s) \<Longrightarrow>
           isProcessingQueue (enqueue it s) \<and> loops (enqueue it s) = [AwaitReply it]
           \<and> analysisQueue (enqueue it s) = []"
    using assms
    by (simp add: enqueue_def processQueue_def whileLoop_attached helper_defs)
  show "tweet it \<notin> set (document s) \<Longrightarrow>
           \<not> isProcessingQueue (enqueue it s) \<and> loops (enqueue it s) = []
           \<and> analysisQueue (enqueue it s) = []"
    using assms
    by (simp add: enqueue_def processQueue_def whileLoop_detached whileLoop_Nil helper_defs)
qed

lemma whileLoop_inFlight:
  "set (inFlight (whileLoop s)) \<subseteq> set (inFlight s) \<union> set (analysisQueue s)"
proof (induction s rule: whileLoop_cases)
  case (empty s)
  then show ?case by (simp add: whileLoop_Nil inFlight_def)
next
  case (detached s it rest)
  then show ?case by (auto simp add: whileLoop_detached inFlight_def record_action_def)
next
  case (attached s it rest)
  then show ?case by (auto simp add: whileLoop_attached inFlight_def helper_defs)
qed

lemma whileLoop_sends:
  "\<exists>xs. sends (trace (whileLoop s)) = sends (trace s) @ xs
        \<and> set xs \<subseteq> itemText ` set (analysisQueue s)"
proof (induction s rule: whileLoop_cases)
  case (empty s)
  then show ?case by (simp add: whileLoop_Nil)
next
  case (detached s it rest)
  then show ?case by (auto simp add: whileLoop_detached record_action_def)
next
  case (attached s it rest)
  then show ?case by (simp add: whileLoop_attached helper_defs)
qed

lemma pendingItems_enqueue:
  assumes "consistent s" "tweet it \<in> set (document s)"
  shows "pendingItems (enqueue it s) = pendingItems s @ [it]"
proof (cases "isProcessingQueue s")
  case True
  then show ?thesis
    by (simp add: enqueue_def processQueue_def pendingItems_def inFlight_def record_action_def)
next
  case False
  then have idle: "analysisQueue s = []" "loops s = []"
    using assms(1) by (simp_all add: consistent_def)
  then show ?thesis
    using False assms(2)
    by (simp add: enqueue_def processQueue_def whileLoop_attached helper_defs pendingItems_def
        inFlight_def)
qed

lemma short_text [simp]: "length (trim (js ''short'')) = 5"
  by (simp add: js_def trim_def isWhiteSpace_def)

lemma step_Reply_inFlight:
  "loops s = [AwaitReply it] \<Longrightarrow> step (Reply 0 r) s = resumeReply it r (s\<lparr>loops := []\<rparr>)"
  by (simp add: dropNth_def)

lemma error_is_not_pending: "js ''error'' \<noteq> js ''pending''"
  by (simp add: js_def)

lemma handleAnalyzePost_env401:
  "\<exists>w'. handleAnalyzePost env401 postText keyedWorker
          = (Inr (Failure (js ''Incorrect API key provided'')), w')"
proof -
  have s: "getSettings env401 keyedWorker = Inr \<lparr>apiKey = js ''sk-test'', enabled = True\<rparr>"
    by (simp add: getSettings_def env401_def okEnv_def keyedWorker_def)
  have "apiError \<lparr>ok = False, status = 401,
          json = Inr (JObj [(js ''error'',
                   JObj [(js ''message'', JStr (js ''Incorrect API key provided''))])])\<rparr>
        = Error (js ''Incorrect API key provided'')"
    by (simp add: apiError_def andThen_def getProp_def optProp_def nullish_def truthy_def)
  then have "andThen (fetched env401) (readResponse env401)
               = Inl (Error (js ''Incorrect API key provided''))"
    by (simp add: env401_def okEnv_def readResponse_def andThen_def)
  then show ?thesis
    by (simp add: handleAnalyzePost_def tryAnalyzePost_def s analyzeWithOpenAI_def Let_def)
qed

lemma handleAnalyzePost_env400:
  "\<exists>w'. handleAnalyzePost env400 postText keyedWorker = (Inr (Failure []), w')"
proof -
  have s: "getSettings env400 keyedWorker = Inr \<lparr>apiKey = js ''sk-test'', enabled = True\<rparr>"
    by (simp add: getSettings_def env400_def okEnv_def keyedWorker_def)
  have "apiError \<lparr>ok = False, status = 400,
          json = Inr (JObj [(js ''error'', JObj [(js ''message'', JArr [])])])\<rparr>
        = Error []"
    by (simp add: apiError_def andThen_def getProp_def optProp_def nullish_def truthy_def)
  then have "andThen (fetched env400) (readResponse env400) = Inl (Error [])"
    by (simp add: env400_def okEnv_def readResponse_def andThen_def)
  then show ?thesis
    by (simp add: handleAnalyzePost_def tryAnalyzePost_def s analyzeWithOpenAI_def Let_def)
qed

lemma scanTweet_busy:
  assumes "isProcessingQueue s"
  shows "isProcessingQueue (scanTweet t s) \<and> loops (scanTweet t s) = loops s
       \<and> shifts (trace (scanTweet t s)) = shifts (trace s)
       \<and> sends (trace (scanTweet t s)) = sends (trace s)"
proof (cases rule: scanTweet_cases [of s t])
  case tagged
  then show ?thesis using assms by (simp add: scanTweet_tagged)
next
  case no_text
  then show ?thesis using assms by (simp add: scanTweet_no_text)
next
  case (too_short innerText)
  then show ?thesis using assms by (simp add: scanTweet_too_short)
next
  case (cached innerText cached)
  then obtain e where "scanTweet t s = s\<lparr>elements := (elements s)(t := e)\<rparr>"
    by (rule scanTweet_cached_element)
  then show ?thesis using assms by simp
next
  case (miss innerText)
  then show ?thesis
    using assms
    by (simp add: scanTweet_miss enqueue_def processQueue_def setTag_def record_action_def)
qed

lemma fold_scanTweet_busy:
  "isProcessingQueue s \<Longrightarrow>
     isProcessingQueue (fold scanTweet ts s) \<and> loops (fold scanTweet ts s) = loops s
     \<and> shifts (trace (fold scanTweet ts s)) = shifts (trace s)
     \<and> sends (trace (fold scanTweet ts s)) = sends (trace s)"
proof (induction ts arbitrary: s)
  case Nil
  then show ?case by simp
next
  case (Cons t ts)
  from scanTweet_busy [OF Cons.prems, of t] Cons.IH [of "scanTweet t s"]
  show ?case by simp
qed

lemma waiting_step:
  assumes "isProcessingQueue s" "loops s = [AwaitDelay]" "\<not> isTimeout e"
  shows "isProcessingQueue (step e s) \<and> loops (step e s) = [AwaitDelay]
       \<and> shifts (trace (step e s)) = shifts (trace s)
       \<and> sends (trace (step e s)) = sends (trace s)"
proof (cases e)
  case Scan
  then show ?thesis
    using fold_scanTweet_busy [OF assms(1), of "document s"] assms(2)
    by (simp add: processTweets_fold)
next
  case (Reply k r)
  then show ?thesis using assms by (cases k) simp_all
next
  case (Timeout k)
  then show ?thesis using assms(3) by simp
next
  case (DomChange ts)
  then show ?thesis using assms by simp
next
  case (TextChange t v)
  then show ?thesis using assms by simp
next
  case (GrokChange t g)
  then show ?thesis using assms by simp
qed

lemma waiting_run:
  assumes "isProcessingQueue s" "loops s = [AwaitDelay]" "list_all (\<lambda>e. \<not> isTimeout e) es"
  shows "loops (run es s) = [AwaitDelay]
       \<and> shifts (trace (run es s)) = shifts (trace s)
       \<and> sends (trace (run es s)) = sends (trace s)"
  using assms
proof (induction es arbitrary: s)
  case Nil
  then show ?case by simp
next
  case (Cons e es)
  from Cons.prems have "\<not> isTimeout e" "list_all (\<lambda>e. \<not> isTimeout e) es" by simp_all
  with waiting_step [OF Cons.prems(1,2), of e] Cons.IH [of "step e s"]
  show ?case by simp
qed

lemma resumeReply_slept:
  assumes "r = Rejected \<or> (\<exists>res. r = Resolved res \<and> \<not> hasError res)"
  shows "loops (resumeReply it r s) = loops s @ [AwaitDelay]
       \<and> trace (resumeReply it r s) = trace s @ [Delay 100]
       \<and> analysisQueue (resumeReply it r s) = analysisQueue s
       \<and> isProcessingQueue (resumeReply it r s) = isProcessingQueue s"
  using assms by (auto simp add: resumeReply_def helper_defs Let_def split: if_splits)

lemma resumeReply_cached:
  "\<not> hasError res \<Longrightarrow> analyzedPosts (resumeReply it (Resolved res) s) (postId it) = Some res"
  by (simp add: resumeReply_def helper_defs Let_def)

lemma failure_handling:
  assumes "s = run es (freshPage ts texts)"
    and "loops s = [AwaitReply it]"
    and "r = Rejected \<or> (\<exists>res. r = Resolved res \<and> hasError res)"
  shows "slopAnalyzed (elements (step (Reply 0 r) s) (tweet it)) = Some (js ''error'')
       \<and> badge (elements (step (Reply 0 r) s) (tweet it)) = None
       \<and> strayBadges (elements (step (Reply 0 r) s) (tweet it)) = strayBadges (elements s (tweet it))
       \<and> analyzedPosts (step (Reply 0 r) s) = analyzedPosts s
       \<and> it \<notin> set (pendingItems (step (Reply 0 r) s))
       \<and> pushes (trace (step (Reply 0 r) s)) = pushes (trace s)
       \<and> (\<forall>es'. filter (\<lambda>x. tweet x = tweet it) (pushes (trace (run es' (step (Reply 0 r) s))))
                = filter (\<lambda>x. tweet x = tweet it) (pushes (trace s)))
       \<and> (handleAnalyzePost env postText w = (Inr (Failure m), w') \<longrightarrow> storage w' = storage w)"
proof -
  define s' where "s' = step (Reply 0 r) s"
  define s1 where
    "s1 = setTag (tweet it) (js ''error'') (removeBadge (tweet it) (s\<lparr>loops := []\<rparr>))"
  have c: "consistent s"
    unfolding assms(1) by (rule consistent_reachable)
  then have c': "consistent s'"
    unfolding s'_def by (rule consistent_step)
  have st: "s' = resumeReply it r (s\<lparr>loops := []\<rparr>)"
    unfolding s'_def using assms(2) by (rule step_Reply_inFlight)
  have others: "tweet it \<notin> tweet ` set (analysisQueue s)"
    using c assms(2) by (simp add: consistent_def queueInv_def pendingItems_def inFlight_def)
  have s1: "slopAnalyzed (elements s1 (tweet it)) = Some (js ''error'')"
    "badge (elements s1 (tweet it)) = None"
    "strayBadges (elements s1 (tweet it)) = strayBadges (elements s (tweet it))"
    "analyzedPosts s1 = analyzedPosts s"
    "pushes (trace s1) = pushes (trace s)" "analysisQueue s1 = analysisQueue s"
    by (simp_all add: s1_def helper_defs)
  have res: "s' = sleep s1 \<or> s' = whileLoop s1"
    using assms(3) unfolding st s1_def by (auto simp add: resumeReply_def)
  have keep: "elements s' (tweet it) = elements s1 (tweet it)
      \<and> analyzedPosts s' = analyzedPosts s1
      \<and> pushes (trace s') = pushes (trace s1)"
  proof (rule disjE [OF res])
    assume "s' = sleep s1"
    then show ?thesis by (simp add: helper_defs)
  next
    assume "s' = whileLoop s1"
    then show ?thesis
      using whileLoop_frame [of s1] whileLoop_element [of "tweet it" s1] others s1(6) by simp
  qed
  have tag: "slopAnalyzed (elements s' (tweet it)) = Some (js ''error'')"
    and bdg: "badge (elements s' (tweet it)) = None"
    and stray: "strayBadges (elements s' (tweet it)) = strayBadges (elements s (tweet it))"
    and cache: "analyzedPosts s' = analyzedPosts s"
    and psh: "pushes (trace s') = pushes (trace s)"
    using keep s1 by simp_all
  have gone: "it \<notin> set (pendingItems s')"
  proof
    assume "it \<in> set (pendingItems s')"
    then have "slopAnalyzed (elements s' (tweet it)) = Some (js ''pending'')"
      using c' by (simp add: consistent_def queueInv_def)
    then show False using tag error_is_not_pending by simp
  qed
  have "tagged s' (tweet it)"
    using tag by (simp add: tagged_def)
  then have never: "filter (\<lambda>x. tweet x = tweet it) (pushes (trace (run es' s')))
                      = filter (\<lambda>x. tweet x = tweet it) (pushes (trace s))" for es'
    using run_pushes_tagged [of s' "tweet it" es'] psh by simp
  have "handleAnalyzePost env postText w = (Inr (Failure m), w') \<longrightarrow> storage w' = storage w"
    using handleAnalyzePost_Failure_storage by blast
  then show ?thesis
    using tag bdg stray cache gone psh never unfolding s'_def by blast
qed

section \<open>The claim about \<open>hashString\<close>\<close>

text \<open>
  C6. \<open>hashString\<close> is a function of its argument alone (equal texts give equal
  identifiers), and its value is the base-36 rendering of the fold
  \<open>hash' = truncate32 (((hash << 5) - hash) + charCode)\<close> over the character codes of the
  string, which is a signed 32-bit integer: the rendering reads back (radix 36) as that
  integer, and the integer lies between \<open>- 2 ^ 31\<close> and \<open>2 ^ 31 - 1\<close>.
\<close>

theorem hashString_is_radix36_of_fold:
  "hashString T = hashString T
   \<and> hashString T = toStringRadix 36 (foldHash T)
   \<and> parseInt 36 (hashString T) = foldHash T
   \<and> - (2 ^ 31) \<le> foldHash T \<and> foldHash T < 2 ^ 31"
  using foldHash_range [of T]
  by (simp add: hashString_def hashLoop_foldHash parseInt_toStringRadix)

section \<open>The claims about the background worker\<close>

text \<open>
  C3. When the settings are read and the enabled setting is false, \<open>handleAnalyzePost\<close>
  returns \<open>{error: "Extension disabled"}\<close>; otherwise, when the API key is empty, it
  returns \<open>{error: "No API key configured"}\<close>. In both cases the worker's state is the
  one it started from: no request was issued, no wait, no write.
\<close>

theorem config_errors:
  assumes "getSettings env w = Inr settings"
  shows "(\<not> enabled settings \<longrightarrow>
            handleAnalyzePost env postText w = (Inr (Failure (js ''Extension disabled'')), w))
       \<and> (enabled settings \<and> apiKey settings = [] \<longrightarrow>
            handleAnalyzePost env postText w = (Inr (Failure (js ''No API key configured'')), w))"
  using assms by (simp add: handleAnalyzePost_def tryAnalyzePost_def)

theorem config_errors_witness:
  "handleAnalyzePost okEnv sampleText disabledWorker
     = (Inr (Failure (js ''Extension disabled'')), disabledWorker)
   \<and> handleAnalyzePost okEnv sampleText noKeyWorker
     = (Inr (Failure (js ''No API key configured'')), noKeyWorker)"
proof -
  have d: "getSettings okEnv disabledWorker = Inr \<lparr>apiKey = js ''sk-test'', enabled = False\<rparr>"
    by (simp add: getSettings_def okEnv_def disabledWorker_def keyedWorker_def)
  have n: "getSettings okEnv noKeyWorker = Inr \<lparr>apiKey = [], enabled = True\<rparr>"
    by (simp add: getSettings_def okEnv_def noKeyWorker_def keyedWorker_def)
  show ?thesis
    using config_errors [OF d, of sampleText] config_errors [OF n, of sampleText] by simp
qed

text \<open>
  C9. When \<open>handleAnalyzePost\<close> returns a classification, its label \<open>L\<close> is one of the
  four, and the run made exactly one write of the statistics: of the record it read, with
  \<open>totalAnalyzed\<close> and the counter of \<open>L\<close> each incremented (by 1 where they held a
  number) and every other counter as it was. The storage then holds that record.
\<close>

theorem stats_updated_once:
  assumes "handleAnalyzePost env postText w = (Inr (Result l r), w')"
  shows "\<exists>L. l = JStr L \<and> L \<in> set labels
           \<and> storageWrites (effects w') = storageWrites (effects w) @ [statsOrDefault (storage w')]
           \<and> stored_stats (storage w') = Some (statsOrDefault (storage w'))
           \<and> statsOrDefault (storage w') (js ''totalAnalyzed'')
               = Some (increment (statsOrDefault (storage w) (js ''totalAnalyzed'')))
           \<and> statsOrDefault (storage w') L = Some (increment (statsOrDefault (storage w) L))
           \<and> (\<forall>n. statsOrDefault (storage w) (js ''totalAnalyzed'') = Some (Number n) \<longrightarrow>
                  statsOrDefault (storage w') (js ''totalAnalyzed'') = Some (Number (n + 1)))
           \<and> (\<forall>n. statsOrDefault (storage w) L = Some (Number n) \<longrightarrow>
                  statsOrDefault (storage w') L = Some (Number (n + 1)))
           \<and> (\<forall>k. k \<noteq> js ''totalAnalyzed'' \<and> k \<noteq> L \<longrightarrow>
                  statsOrDefault (storage w') k = statsOrDefault (storage w) k)"
proof -
  from assms have t: "tryAnalyzePost env postText w = (Inr (Result l r), w')"
    by (simp add: handleAnalyzePost_Result)
  from tryAnalyzePost_Result [OF t]
  obtain settings :: settings and res :: result and w3 where
    an: "analyzeWithOpenAI env postText (apiKey settings) (rateLimit env w) = (Inr res, w3)"
    and l: "l = likelihood res" and up: "updateStats env l w3 = (Inr (), w')"
    by blast
  from analyzeWithOpenAI_likelihood [OF an] l obtain L where L: "l = JStr L" "L \<in> set labels"
    by auto
  have w3: "w3 = (rateLimit env w)\<lparr>effects := effects (rateLimit env w) @
                  [Fetch (apiKey settings) postText]\<rparr>"
    using analyzeWithOpenAI_state [of env postText "apiKey settings" "rateLimit env w"] an
    by simp
  have st3: "storage w3 = storage w"
    by (simp add: w3 rateLimit_def Let_def)
  define new where
    "new = postIncrement L (postIncrement (js ''totalAnalyzed'') (statsOrDefault (storage w)))"
  have w': "w' = w3\<lparr>effects := effects w3 @ [StorageSet new],
                    storage := (storage w3)\<lparr>stored_stats := Some new\<rparr>\<rparr>"
    using updateStats_Inr [OF up] L by (simp add: new_def st3)
  have cur: "statsOrDefault (storage w') = new"
    by (simp add: w' statsOrDefault_def)
  have "storageWrites (effects w') = storageWrites (effects w) @ [new]"
    by (simp add: w' w3 storageWrites_append storageWrites_rateLimit)
       (simp add: storageWrites_def)
  moreover have "stored_stats (storage w') = Some new"
    by (simp add: w')
  moreover have total: "new (js ''totalAnalyzed'')
      = Some (increment (statsOrDefault (storage w) (js ''totalAnalyzed'')))"
    using labels_not_total [OF L(2)]
    by (simp add: new_def postIncrement_other postIncrement_same)
  moreover have label: "new L = Some (increment (statsOrDefault (storage w) L))"
    using labels_not_total [OF L(2)]
    by (simp add: new_def postIncrement_other postIncrement_same)
  moreover have "\<forall>n. statsOrDefault (storage w) (js ''totalAnalyzed'') = Some (Number n) \<longrightarrow>
      new (js ''totalAnalyzed'') = Some (Number (n + 1))"
    using total by (simp add: increment_def)
  moreover have "\<forall>n. statsOrDefault (storage w) L = Some (Number n) \<longrightarrow>
      new L = Some (Number (n + 1))"
    using label by (simp add: increment_def)
  moreover have "\<forall>k. k \<noteq> js ''totalAnalyzed'' \<and> k \<noteq> L \<longrightarrow> new k = statsOrDefault (storage w) k"
    by (simp add: new_def postIncrement_other)
  ultimately show ?thesis
    using L unfolding cur by blast
qed

theorem stats_updated_once_witness:
  "fst (handleAnalyzePost okEnv sampleText keyedWorker) = Inr sampleResult
   \<and> storageWrites (effects (snd (handleAnalyzePost okEnv sampleText keyedWorker)))
       = [statsOrDefault (storage (snd (handleAnalyzePost okEnv sampleText keyedWorker)))]
   \<and> statsOrDefault (storage (snd (handleAnalyzePost okEnv sampleText keyedWorker)))
       (js ''totalAnalyzed'') = Some (Number 1)
   \<and> statsOrDefault (storage (snd (handleAnalyzePost okEnv sampleText keyedWorker)))
       (js ''high'') = Some (Number 1)
   \<and> statsOrDefault (storage (snd (handleAnalyzePost okEnv sampleText keyedWorker)))
       (js ''low'') = Some (Number 0)"
proof -
  obtain w' where h: "handleAnalyzePost okEnv sampleText keyedWorker = (Inr sampleResult, w')"
    using handleAnalyzePost_okEnv by blast
  have old: "statsOrDefault (storage keyedWorker) = defaultStats"
    "storageWrites (effects keyedWorker) = []"
    by (simp_all add: keyedWorker_def statsOrDefault_def storageWrites_def)
  from stats_updated_once [OF h [unfolded sampleResult_def]]
  obtain L where L: "JStr (js ''high'') = JStr L"
    and wr: "storageWrites (effects w') = storageWrites (effects keyedWorker) @ [statsOrDefault (storage w')]"
    and tot: "\<forall>n. statsOrDefault (storage keyedWorker) (js ''totalAnalyzed'') = Some (Number n) \<longrightarrow>
                  statsOrDefault (storage w') (js ''totalAnalyzed'') = Some (Number (n + 1))"
    and lab: "\<forall>n. statsOrDefault (storage keyedWorker) L = Some (Number n) \<longrightarrow>
                  statsOrDefault (storage w') L = Some (Number (n + 1))"
    and oth: "\<forall>k. k \<noteq> js ''totalAnalyzed'' \<and> k \<noteq> L \<longrightarrow>
                  statsOrDefault (storage w') k = statsOrDefault (storage keyedWorker) k"
    by blast
  have L': "L = js ''high''" using L by simp
  have "statsOrDefault (storage w') (js ''totalAnalyzed'') = Some (Number 1)"
    using tot by (simp add: old defaultStats_total)
  moreover have "statsOrDefault (storage w') (js ''high'') = Some (Number 1)"
    using lab by (simp add: L' old defaultStats_high)
  moreover have "statsOrDefault (storage w') (js ''low'') = Some (Number 0)"
    using oth [rule_format, of "js ''low''"] low_is_other
    by (simp add: L' old defaultStats_low)
  ultimately show ?thesis
    using h wr by (simp add: old)
qed

text \<open>
  C10. \<open>handleAnalyzePost\<close> never lets an exception out: whatever the text, the state and
  the browser's answers (the read of the settings, the request, the body, its content, the
  parse, the read and the write of the statistics, each failing or not), it returns a reply,
  which is either an object with a string \<open>error\<close> or a classification whose likelihood
  is one of \<open>low\<close>, \<open>medium\<close>, \<open>high\<close>, \<open>certain\<close>.
\<close>

theorem handleAnalyzePost_total:
  "(\<exists>m w'. handleAnalyzePost env postText w = (Inr (Failure m), w'))
   \<or> (\<exists>l r w'. handleAnalyzePost env postText w = (Inr (Result (JStr l) r), w')
                 \<and> l \<in> set labels)"
proof -
  obtain rep w' where h: "handleAnalyzePost env postText w = (Inr rep, w')"
    using handleAnalyzePost_Inr by blast
  show ?thesis
  proof (cases rep)
    case (Result l r)
    then have "l \<in> set (map JStr labels)"
      using h tryAnalyzePost_Result_likelihood by (simp add: handleAnalyzePost_Result)
    then show ?thesis using h Result by auto
  next
    case (Failure m)
    then show ?thesis using h by blast
  qed
qed

section \<open>The claims about the content script\<close>

text \<open>
  C8. In every state a run reaches from a fresh page there is at most one call of
  \<open>processQueue\<close> in progress, and there is one exactly when \<open>isProcessingQueue\<close> is
  set; so at most one item is in flight. While the flag is set \<open>processQueue\<close> does
  nothing. When it is not set, enqueueing an item starts the loop, which takes the item at
  once (and sends it when its tweet is in the document). Items leave the queue in the order
  they entered it: the items pushed so far are the items shifted so far, in that order,
  followed by the queue.
\<close>

theorem single_consumer_fifo:
  "let s = run es (freshPage ts texts) in
     length (loops s) \<le> 1
     \<and> (isProcessingQueue s \<longleftrightarrow> loops s \<noteq> [])
     \<and> length (inFlight s) \<le> 1
     \<and> (isProcessingQueue s \<longrightarrow> processQueue s = s)
     \<and> (\<not> isProcessingQueue s \<longrightarrow> shifts (trace (enqueue it s)) = shifts (trace s) @ [it])
     \<and> (\<not> isProcessingQueue s \<and> tweet it \<in> set (document s) \<longrightarrow>
          isProcessingQueue (enqueue it s) \<and> loops (enqueue it s) = [AwaitReply it])
     \<and> pushes (trace s) = shifts (trace s) @ analysisQueue s"
proof -
  define s where "s = run es (freshPage ts texts)"
  have c: "consistent s"
    unfolding s_def by (rule consistent_reachable)
  then have l: "length (loops s) \<le> 1" and f: "isProcessingQueue s \<longleftrightarrow> loops s \<noteq> []"
    and q: "\<not> isProcessingQueue s \<longrightarrow> analysisQueue s = []"
    and p: "pushes (trace s) = shifts (trace s) @ analysisQueue s"
    by (simp_all add: consistent_def queueInv_def)
  have idle: "analysisQueue s = [] \<and> loops s = []" if "\<not> isProcessingQueue s"
    using that f q by simp
  have "isProcessingQueue s \<longrightarrow> processQueue s = s"
    by (simp add: processQueue_def)
  moreover have "\<not> isProcessingQueue s \<longrightarrow> shifts (trace (enqueue it s)) = shifts (trace s) @ [it]"
    using idle enqueue_idle(1) [of s it] by blast
  moreover have "\<not> isProcessingQueue s \<and> tweet it \<in> set (document s) \<longrightarrow>
          isProcessingQueue (enqueue it s) \<and> loops (enqueue it s) = [AwaitReply it]"
    using idle enqueue_idle(2) [of s it] by blast
  ultimately show ?thesis
    using l f p inFlight_le [OF l] unfolding s_def Let_def by blast
qed

theorem single_consumer_fifo_witness:
  "loops (run [Scan] (freshPage [0, 1] (\<lambda>t. Some sampleText))) = [AwaitReply (sampleItem 0)]
   \<and> inFlight (run [Scan] (freshPage [0, 1] (\<lambda>t. Some sampleText))) = [sampleItem 0]
   \<and> processQueue (run [Scan] (freshPage [0, 1] (\<lambda>t. Some sampleText)))
       = run [Scan] (freshPage [0, 1] (\<lambda>t. Some sampleText))
   \<and> loops (enqueue (sampleItem 0) (run [] (freshPage [0, 1] (\<lambda>t. Some sampleText))))
       = [AwaitReply (sampleItem 0)]
   \<and> pushes (trace (run [Scan] (freshPage [0, 1] (\<lambda>t. Some sampleText))))
       = shifts (trace (run [Scan] (freshPage [0, 1] (\<lambda>t. Some sampleText))))
         @ analysisQueue (run [Scan] (freshPage [0, 1] (\<lambda>t. Some sampleText)))"
proof -
  define s1 where "s1 = run [Scan] (freshPage [0, 1] (\<lambda>t. Some sampleText))"
  define s0 where "s0 = run [] (freshPage [0, 1] (\<lambda>t. Some sampleText))"
  have busy: "isProcessingQueue s1" and l: "loops s1 = [AwaitReply (sampleItem 0)]"
    by (simp_all add: s1_def run_defs)
  have idle: "\<not> isProcessingQueue s0" "tweet (sampleItem 0) \<in> set (document s0)"
    by (simp_all add: s0_def freshPage_def sampleItem_def)
  have t1: "(isProcessingQueue s1 \<longrightarrow> processQueue s1 = s1)
            \<and> pushes (trace s1) = shifts (trace s1) @ analysisQueue s1"
    using single_consumer_fifo [of "[Scan]" "[0, 1]" "\<lambda>t. Some sampleText" "sampleItem 0"]
    unfolding s1_def Let_def by blast
  have t0: "\<not> isProcessingQueue s0 \<and> tweet (sampleItem 0) \<in> set (document s0) \<longrightarrow>
              loops (enqueue (sampleItem 0) s0) = [AwaitReply (sampleItem 0)]"
    using single_consumer_fifo [of "[]" "[0, 1]" "\<lambda>t. Some sampleText" "sampleItem 0"]
    unfolding s0_def Let_def by blast
  have "loops s1 = [AwaitReply (sampleItem 0)] \<and> inFlight s1 = [sampleItem 0]
        \<and> processQueue s1 = s1
        \<and> loops (enqueue (sampleItem 0) s0) = [AwaitReply (sampleItem 0)]
        \<and> pushes (trace s1) = shifts (trace s1) @ analysisQueue s1"
    using t1 t0 busy idle l by (simp add: inFlight_def)
  then show ?thesis unfolding s1_def s0_def .
qed

text \<open>
  C5. When the loop takes an item whose tweet is not in the document, that turn of the
  loop does nothing but take it: the loop goes on at once from the state in which the item
  has left the queue, with the cache, the elements and the messages sent as they were. So
  the cache is not written by the loop, the messages it sends from there on are those of
  later items, the item is never in flight, and its tweet (no other item's) keeps its
  element as it was: no badge, no new tag.
\<close>

theorem detached_item_discarded:
  assumes "analysisQueue s = it # rest" and "tweet it \<notin> set (document s)"
  shows "whileLoop s = whileLoop (record_action (Shift it) (s\<lparr>analysisQueue := rest\<rparr>))
       \<and> analyzedPosts (whileLoop s) = analyzedPosts s
       \<and> (\<exists>xs. sends (trace (whileLoop s)) = sends (trace s) @ xs
                \<and> set xs \<subseteq> itemText ` set rest)
       \<and> (tweet it \<notin> tweet ` set rest \<longrightarrow>
            elements (whileLoop s) (tweet it) = elements s (tweet it))
       \<and> (it \<notin> set (inFlight s) \<and> it \<notin> set rest \<longrightarrow> it \<notin> set (inFlight (whileLoop s)))"
proof -
  let ?s1 = "record_action (Shift it) (s\<lparr>analysisQueue := rest\<rparr>)"
  have step: "whileLoop s = whileLoop ?s1"
    using assms by (rule whileLoop_detached)
  have s1: "analysisQueue ?s1 = rest" "sends (trace ?s1) = sends (trace s)"
    "elements ?s1 = elements s" "inFlight ?s1 = inFlight s"
    by (simp_all add: record_action_def inFlight_def)
  have "analyzedPosts (whileLoop s) = analyzedPosts s"
    using whileLoop_frame [of s] by simp
  moreover have "\<exists>xs. sends (trace (whileLoop s)) = sends (trace s) @ xs
                      \<and> set xs \<subseteq> itemText ` set rest"
    using whileLoop_sends [of ?s1] unfolding step s1 .
  moreover have "elements (whileLoop s) (tweet it) = elements s (tweet it)"
    if "tweet it \<notin> tweet ` set rest"
    using whileLoop_element [of "tweet it" ?s1] that unfolding step s1 by simp
  moreover have "it \<notin> set (inFlight (whileLoop s))"
    if "it \<notin> set (inFlight s) \<and> it \<notin> set rest"
    using whileLoop_inFlight [of ?s1] that unfolding step s1 by auto
  ultimately show ?thesis
    using step by blast
qed

theorem detached_item_discarded_witness:
  "elements (run [Scan, DomChange [0], Reply 0 (Resolved sampleResult), Timeout 0]
              (freshPage [0, 1] (\<lambda>t. Some sampleText))) 1
     = elements (run [Scan, DomChange [0], Reply 0 (Resolved sampleResult)]
              (freshPage [0, 1] (\<lambda>t. Some sampleText))) 1
   \<and> analyzedPosts (run [Scan, DomChange [0], Reply 0 (Resolved sampleResult), Timeout 0]
              (freshPage [0, 1] (\<lambda>t. Some sampleText)))
     = analyzedPosts (run [Scan, DomChange [0], Reply 0 (Resolved sampleResult)]
              (freshPage [0, 1] (\<lambda>t. Some sampleText)))
   \<and> sends (trace (run [Scan, DomChange [0], Reply 0 (Resolved sampleResult), Timeout 0]
              (freshPage [0, 1] (\<lambda>t. Some sampleText))))
     = [trim sampleText]"
proof -
  define s1 where "s1 = run [Scan, DomChange [0], Reply 0 (Resolved sampleResult)]
                          (freshPage [0, 1] (\<lambda>t. Some sampleText))"
  define s where "s = s1\<lparr>loops := dropNth 0 (loops s1)\<rparr>"
  have q: "analysisQueue s = sampleItem 1 # []" and d: "tweet (sampleItem 1) \<notin> set (document s)"
    and l: "loops s1 = [AwaitDelay]" and sent: "sends (trace s) = [trim sampleText]"
    and fl: "inFlight s = []"
    by (simp_all add: s_def s1_def run_defs inFlight_def)
  have next_step: "run [Scan, DomChange [0], Reply 0 (Resolved sampleResult), Timeout 0]
                     (freshPage [0, 1] (\<lambda>t. Some sampleText)) = whileLoop s"
  proof -
    have "run [Scan, DomChange [0], Reply 0 (Resolved sampleResult), Timeout 0]
            (freshPage [0, 1] (\<lambda>t. Some sampleText)) = step (Timeout 0) s1"
      by (simp add: s1_def)
    then show ?thesis using l by (simp add: s_def)
  qed
  have same: "elements s = elements s1" "analyzedPosts s = analyzedPosts s1"
    by (simp_all add: s_def)
  from detached_item_discarded [OF q d, THEN conjunct2]
  have "analyzedPosts (whileLoop s) = analyzedPosts s"
    and "\<exists>xs. sends (trace (whileLoop s)) = sends (trace s) @ xs \<and> set xs \<subseteq> itemText ` set []"
    and "elements (whileLoop s) (tweet (sampleItem 1)) = elements s (tweet (sampleItem 1))"
    by simp_all
  then have "elements (whileLoop s) 1 = elements s1 1
             \<and> analyzedPosts (whileLoop s) = analyzedPosts s1
             \<and> sends (trace (whileLoop s)) = [trim sampleText]"
    using sent same by (auto simp add: sampleItem_def)
  then show ?thesis unfolding next_step [symmetric] s1_def .
qed

text \<open>
  C7. For a tweet that carries no tag when it is scanned: without a text element it is
  tagged \<open>no-text\<close>; with a trimmed text of fewer than 20 code units it is tagged
  \<open>too-short\<close>; in both cases nothing else changes, and no run from there ever pushes
  an item for the tweet. With a longer text whose identifier is cached, the badge of the
  cached result is inserted (below the article, in the place of a badge found there; or
  before the container of the Grok button when that is the article or lies above it), the
  tweet gets the tag \<open>cached\<close>, and nothing else changes; the insertion does not throw
  for a tweet in the document. With a longer text whose identifier is not cached, the tweet
  is tagged \<open>pending\<close> and exactly one item (the tweet, the trimmed text, its
  identifier) is pushed; in a state reached from a fresh page that item joins the items not
  yet done with, after the others.
\<close>

theorem scan_of_untagged_tweet:
  assumes "\<not> tagged s t"
  shows
    "(tweetText (elements s t) = None \<longrightarrow>
        scanTweet t s =
          s\<lparr>elements := (elements s)(t := (elements s t)\<lparr>slopAnalyzed := Some (js ''no-text'')\<rparr>)\<rparr>)
   \<and> (\<forall>innerText. tweetText (elements s t) = Some innerText \<and> length (trim innerText) < 20 \<longrightarrow>
        scanTweet t s =
          s\<lparr>elements := (elements s)(t := (elements s t)\<lparr>slopAnalyzed := Some (js ''too-short'')\<rparr>)\<rparr>)
   \<and> (tweetText (elements s t) = None
        \<or> (\<exists>innerText. tweetText (elements s t) = Some innerText \<and> length (trim innerText) < 20) \<longrightarrow>
        (\<forall>es. filter (\<lambda>x. tweet x = t) (pushes (trace (run es (scanTweet t s))))
              = filter (\<lambda>x. tweet x = t) (pushes (trace s))))
   \<and> (\<forall>innerText cached.
        tweetText (elements s t) = Some innerText \<and> \<not> length (trim innerText) < 20
        \<and> analyzedPosts s (hashString (trim innerText)) = Some cached
        \<and> \<not> insertThrows s t \<longrightarrow>
        scanTweet t s =
          s\<lparr>elements := (elements s)(t :=
              (if insertsOutside s t
               then (elements s t)
                      \<lparr>badge := None,
                       strayBadges := strayBadges (elements s t) @ [ResultBadge cached],
                       slopAnalyzed := Some (js ''cached'')\<rparr>
               else (elements s t)
                      \<lparr>badge := Some (ResultBadge cached),
                       slopAnalyzed := Some (js ''cached'')\<rparr>))\<rparr>)
   \<and> (t \<in> set (document s) \<longrightarrow> \<not> insertThrows s t)
   \<and> (\<forall>innerText.
        tweetText (elements s t) = Some innerText \<and> \<not> length (trim innerText) < 20
        \<and> analyzedPosts s (hashString (trim innerText)) = None \<longrightarrow>
        slopAnalyzed (elements (scanTweet t s) t) = Some (js ''pending'')
        \<and> pushes (trace (scanTweet t s))
            = pushes (trace s)
              @ [\<lparr>tweet = t, itemText = trim innerText, postId = hashString (trim innerText)\<rparr>]
        \<and> ((\<exists>es ts texts. s = run es (freshPage ts texts)) \<and> t \<in> set (document s) \<longrightarrow>
            pendingItems (scanTweet t s)
              = pendingItems s
                @ [\<lparr>tweet = t, itemText = trim innerText, postId = hashString (trim innerText)\<rparr>]))"
proof -
  have never: "filter (\<lambda>x. tweet x = t) (pushes (trace (run es (scanTweet t s))))
                 = filter (\<lambda>x. tweet x = t) (pushes (trace s))"
    if eq: "scanTweet t s = s\<lparr>elements := (elements s)(t := (elements s t)\<lparr>slopAnalyzed := Some v\<rparr>)\<rparr>"
      and v: "v \<noteq> []" for v es
  proof -
    have "tagged (scanTweet t s) t" using v by (simp add: eq tagged_def)
    then have "filter (\<lambda>x. tweet x = t) (pushes (trace (run es (scanTweet t s))))
                 = filter (\<lambda>x. tweet x = t) (pushes (trace (scanTweet t s)))"
      by (rule run_pushes_tagged)
    then show ?thesis by (simp add: eq)
  qed
  have miss: "slopAnalyzed (elements (scanTweet t s) t) = Some (js ''pending'')
        \<and> pushes (trace (scanTweet t s))
            = pushes (trace s)
              @ [\<lparr>tweet = t, itemText = trim innerText, postId = hashString (trim innerText)\<rparr>]
        \<and> ((\<exists>es ts texts. s = run es (freshPage ts texts)) \<and> t \<in> set (document s) \<longrightarrow>
            pendingItems (scanTweet t s)
              = pendingItems s
                @ [\<lparr>tweet = t, itemText = trim innerText, postId = hashString (trim innerText)\<rparr>])"
    if tx: "tweetText (elements s t) = Some innerText" and long: "\<not> length (trim innerText) < 20"
      and none: "analyzedPosts s (hashString (trim innerText)) = None" for innerText
  proof -
    let ?it = "\<lparr>tweet = t, itemText = trim innerText, postId = hashString (trim innerText)\<rparr>"
    let ?s1 = "setTag t (js ''pending'') s"
    have sc: "scanTweet t s = enqueue ?it ?s1"
      using assms tx long none by (rule scanTweet_miss)
    have "slopAnalyzed (elements (scanTweet t s) t) = Some (js ''pending'')"
      using enqueue_frame [of ?it ?s1] by (simp add: sc) (simp add: setTag_def)
    moreover have "pushes (trace (scanTweet t s)) = pushes (trace s) @ [?it]"
      using enqueue_frame [of ?it ?s1] by (simp add: sc) (simp add: setTag_def)
    moreover have "pendingItems (scanTweet t s) = pendingItems s @ [?it]"
      if "\<exists>es ts texts. s = run es (freshPage ts texts)" and "t \<in> set (document s)"
    proof -
      have "consistent s" using that(1) consistent_reachable by blast
      then have "consistent ?s1"
        using assms by (simp add: setTag_def consistent_retag)
      moreover have "tweet ?it \<in> set (document ?s1)"
        using that(2) by (simp add: setTag_def)
      ultimately have "pendingItems (enqueue ?it ?s1) = pendingItems ?s1 @ [?it]"
        by (rule pendingItems_enqueue)
      then show ?thesis
        by (simp add: sc) (simp add: setTag_def pendingItems_def inFlight_def)
    qed
    ultimately show ?thesis by blast
  qed
  have hit: "scanTweet t s =
          s\<lparr>elements := (elements s)(t :=
              (if insertsOutside s t
               then (elements s t)
                      \<lparr>badge := None,
                       strayBadges := strayBadges (elements s t) @ [ResultBadge cached],
                       slopAnalyzed := Some (js ''cached'')\<rparr>
               else (elements s t)
                      \<lparr>badge := Some (ResultBadge cached),
                       slopAnalyzed := Some (js ''cached'')\<rparr>))\<rparr>"
    if "tweetText (elements s t) = Some innerText" and "\<not> length (trim innerText) < 20"
      and "analyzedPosts s (hashString (trim innerText)) = Some cached"
      and "\<not> insertThrows s t" for innerText cached
    using assms that by (rule scanTweet_cached)
  have none: "scanTweet t s =
      s\<lparr>elements := (elements s)(t := (elements s t)\<lparr>slopAnalyzed := Some (js ''no-text'')\<rparr>)\<rparr>"
    if "tweetText (elements s t) = None"
    using assms that by (rule scanTweet_no_text)
  have short: "scanTweet t s =
      s\<lparr>elements := (elements s)(t := (elements s t)\<lparr>slopAnalyzed := Some (js ''too-short'')\<rparr>)\<rparr>"
    if "tweetText (elements s t) = Some innerText" and "length (trim innerText) < 20"
    for innerText
    using assms that by (rule scanTweet_too_short)
  have never_none: "\<forall>es. filter (\<lambda>x. tweet x = t) (pushes (trace (run es (scanTweet t s))))
              = filter (\<lambda>x. tweet x = t) (pushes (trace s))"
    if "tweetText (elements s t) = None
        \<or> (\<exists>innerText. tweetText (elements s t) = Some innerText \<and> length (trim innerText) < 20)"
    using that
  proof (elim disjE exE conjE)
    assume a: "tweetText (elements s t) = None"
    have "js ''no-text'' \<noteq> []" by simp
    with never [OF none [OF a]] show ?thesis by blast
  next
    fix innerText
    assume b: "tweetText (elements s t) = Some innerText" "length (trim innerText) < 20"
    have "js ''too-short'' \<noteq> []" by simp
    with never [OF short [OF b]] show ?thesis by blast
  qed
  have "t \<in> set (document s) \<longrightarrow> \<not> insertThrows s t"
    using insertThrows_attached by blast
  then show ?thesis
    using never_none miss hit none short by blast
qed

theorem scan_of_untagged_tweet_witness:
  "slopAnalyzed (elements (scanTweet 0 (freshPage [0] (\<lambda>t. Some (js ''short'')))) 0)
     = Some (js ''too-short'')
   \<and> analysisQueue (scanTweet 0 (freshPage [0] (\<lambda>t. Some (js ''short'')))) = []
   \<and> filter (\<lambda>x. tweet x = 0)
       (pushes (trace (run [Scan, Scan] (scanTweet 0 (freshPage [0] (\<lambda>t. Some (js ''short'')))))))
     = []"
proof -
  define s where "s = freshPage [0] (\<lambda>t. Some (js ''short''))"
  have u: "\<not> tagged s 0" and tx: "tweetText (elements s 0) = Some (js ''short'')"
    and q: "analysisQueue s = []" and tr: "pushes (trace s) = []"
    by (simp_all add: s_def freshPage_def tagged_def)
  have sh: "length (trim (js ''short'')) < 20" by simp
  note th = scan_of_untagged_tweet [OF u]
  have eq: "scanTweet 0 s =
      s\<lparr>elements := (elements s)(0 := (elements s 0)\<lparr>slopAnalyzed := Some (js ''too-short'')\<rparr>)\<rparr>"
    using th tx sh by blast
  have "\<forall>es. filter (\<lambda>x. tweet x = 0) (pushes (trace (run es (scanTweet 0 s))))
          = filter (\<lambda>x. tweet x = 0) (pushes (trace s))"
    using th tx sh by blast
  then have "filter (\<lambda>x. tweet x = 0) (pushes (trace (run [Scan, Scan] (scanTweet 0 s))))
          = filter (\<lambda>x. tweet x = 0) (pushes (trace s))"
    by (rule spec)
  then have "slopAnalyzed (elements (scanTweet 0 s) 0) = Some (js ''too-short'')
      \<and> analysisQueue (scanTweet 0 s) = []
      \<and> filter (\<lambda>x. tweet x = 0) (pushes (trace (run [Scan, Scan] (scanTweet 0 s)))) = []"
    using q tr by (simp add: eq)
  then show ?thesis unfolding s_def .
qed

text \<open>
  C4. The source does not do what the claim says of a failed item in two cases, which it
  misses. The theorem runs it on both.

  In the first run the container of the Grok button is the article itself or lies above
  it, and the request is answered with the error of a 401. The loading badge was inserted
  before the container, outside the article; \<open>removeBadge\<close> looks below the article
  only. After the failure the tweet is tagged \<open>error\<close>, and the loading badge is still
  in the page.

  In the second run the provider answers 400 with an \<open>error.message\<close> that is an empty
  array, for which the worker returns the error reply with the empty message. \<open>if
  (result.error)\<close> does not see an error in it: the reply is written to the cache under
  the identifier of the text, a badge is made of it and the tweet is tagged
  \<open>complete\<close>.

  For a fault and for an error with a message, lemma \<open>failure_handling\<close> shows what
  the claim says: the tag \<open>error\<close>, no badge below the article and none added outside
  it, the cache and the statistics as they were, and no retry.
\<close>

theorem failed_item_divergence:
  "slopAnalyzed (elements
       (run [GrokChange 0 (ContainerOutside False), Scan,
             Reply 0 (Resolved (Failure (js ''Incorrect API key provided'')))]
          (freshPage [0] (\<lambda>t. Some sampleText))) 0) = Some (js ''error'')
   \<and> strayBadges (elements
       (run [GrokChange 0 (ContainerOutside False), Scan,
             Reply 0 (Resolved (Failure (js ''Incorrect API key provided'')))]
          (freshPage [0] (\<lambda>t. Some sampleText))) 0) = [LoadingBadge]
   \<and> fst (handleAnalyzePost env400 (trim sampleText) keyedWorker) = Inr (Failure [])
   \<and> analyzedPosts
       (run [Scan, Reply 0 (Resolved (Failure []))] (freshPage [0] (\<lambda>t. Some sampleText)))
       (hashString (trim sampleText)) = Some (Failure [])
   \<and> slopAnalyzed (elements
       (run [Scan, Reply 0 (Resolved (Failure []))] (freshPage [0] (\<lambda>t. Some sampleText))) 0)
       = Some (js ''complete'')
   \<and> badge (elements
       (run [Scan, Reply 0 (Resolved (Failure []))] (freshPage [0] (\<lambda>t. Some sampleText))) 0)
       = Some (ResultBadge (Failure []))"
proof -
  obtain w' where "handleAnalyzePost env400 (trim sampleText) keyedWorker = (Inr (Failure []), w')"
    using handleAnalyzePost_env400 by blast
  then have "fst (handleAnalyzePost env400 (trim sampleText) keyedWorker) = Inr (Failure [])"
    by simp
  then show ?thesis
    by (simp add: run_defs)
qed

text \<open>
  C2, as the source has it. The claim that the delay follows every item fails: an item
  whose tweet has left the document is followed by the next item at once. In the run below
  the second of three tweets leaves the document while the first is being classified; after
  the delay that follows the first item, the second and the third are taken with no delay
  between them.
\<close>

theorem no_delay_after_discarded_item:
  "trace (run [Scan, DomChange [0, 2], Reply 0 (Resolved sampleResult), Timeout 0]
            (freshPage [0, 1, 2] (\<lambda>t. Some sampleText)))
     = [Push (sampleItem 0), Shift (sampleItem 0), SendMessage (trim sampleText),
        Push (sampleItem 1), Push (sampleItem 2), Delay 100,
        Shift (sampleItem 1), Shift (sampleItem 2), SendMessage (trim sampleText)]"
  by (simp add: run_defs)

text \<open>
  C2, amended. In a state reached from a fresh page, when the request of the item in
  flight is answered with a result, or ends in a fault, the loop starts the 100 ms timer
  and stops there with the queue as it was; and whatever happens before that timer fires
  (scans, changes of the document, stray replies), the loop stays stopped, takes no item
  from the queue and sends no message. An item whose tweet is not in the document is
  followed by the next item at once.
\<close>

theorem delay_after_request:
  assumes "s = run es (freshPage ts texts)"
    and "loops s = [AwaitReply it]"
    and "r = Rejected \<or> (\<exists>res. r = Resolved res \<and> \<not> hasError res)"
    and "list_all (\<lambda>e. \<not> isTimeout e) es'"
  shows "loops (step (Reply 0 r) s) = [AwaitDelay]
       \<and> trace (step (Reply 0 r) s) = trace s @ [Delay 100]
       \<and> analysisQueue (step (Reply 0 r) s) = analysisQueue s
       \<and> loops (run es' (step (Reply 0 r) s)) = [AwaitDelay]
       \<and> shifts (trace (run es' (step (Reply 0 r) s))) = shifts (trace s)
       \<and> sends (trace (run es' (step (Reply 0 r) s))) = sends (trace s)
       \<and> (analysisQueue q = it' # rest \<and> tweet it' \<notin> set (document q) \<longrightarrow>
            whileLoop q = whileLoop (record_action (Shift it') (q\<lparr>analysisQueue := rest\<rparr>)))"
proof -
  define s' where "s' = step (Reply 0 r) s"
  have c: "consistent s"
    unfolding assms(1) by (rule consistent_reachable)
  then have busy: "isProcessingQueue s"
    using assms(2) by (simp add: consistent_def)
  have st: "s' = resumeReply it r (s\<lparr>loops := []\<rparr>)"
    unfolding s'_def using assms(2) by (rule step_Reply_inFlight)
  have now: "loops s' = [AwaitDelay]" "trace s' = trace s @ [Delay 100]"
    "analysisQueue s' = analysisQueue s" "isProcessingQueue s'"
    using resumeReply_slept [OF assms(3), of it "s\<lparr>loops := []\<rparr>"] busy by (simp_all add: st)
  have later: "loops (run es' s') = [AwaitDelay]
       \<and> shifts (trace (run es' s')) = shifts (trace s')
       \<and> sends (trace (run es' s')) = sends (trace s')"
    using now(4) now(1) assms(4) by (rule waiting_run)
  have "shifts (trace s') = shifts (trace s)" "sends (trace s') = sends (trace s)"
    by (simp_all add: now(2))
  moreover have "analysisQueue q = it' # rest \<and> tweet it' \<notin> set (document q) \<longrightarrow>
      whileLoop q = whileLoop (record_action (Shift it') (q\<lparr>analysisQueue := rest\<rparr>))"
    using whileLoop_detached by blast
  ultimately show ?thesis
    using now later unfolding s'_def by simp
qed

theorem delay_after_request_witness:
  "loops (step (Reply 0 (Resolved sampleResult))
            (run [Scan] (freshPage [0, 1] (\<lambda>t. Some sampleText)))) = [AwaitDelay]
   \<and> trace (step (Reply 0 (Resolved sampleResult))
            (run [Scan] (freshPage [0, 1] (\<lambda>t. Some sampleText))))
       = trace (run [Scan] (freshPage [0, 1] (\<lambda>t. Some sampleText))) @ [Delay 100]
   \<and> sends (trace (run [Scan, DomChange [1], Reply 0 Rejected]
            (step (Reply 0 (Resolved sampleResult))
               (run [Scan] (freshPage [0, 1] (\<lambda>t. Some sampleText))))))
       = [trim sampleText]"
proof -
  define s where "s = run [Scan] (freshPage [0, 1] (\<lambda>t. Some sampleText))"
  define r where "r = Resolved sampleResult"
  have l: "loops s = [AwaitReply (sampleItem 0)]" and sn: "sends (trace s) = [trim sampleText]"
    by (simp_all add: s_def run_defs)
  have ok: "r = Rejected \<or> (\<exists>res. r = Resolved res \<and> \<not> hasError res)"
    by (simp add: r_def sampleResult_def hasError_def)
  have quiet: "list_all (\<lambda>e. \<not> isTimeout e) [Scan, DomChange [1], Reply 0 Rejected]"
    by simp
  from delay_after_request [OF s_def l ok quiet]
  have "loops (step (Reply 0 r) s) = [AwaitDelay]
      \<and> trace (step (Reply 0 r) s) = trace s @ [Delay 100]
      \<and> sends (trace (run [Scan, DomChange [1], Reply 0 Rejected] (step (Reply 0 r) s)))
          = sends (trace s)"
    by blast
  then have "loops (step (Reply 0 r) s) = [AwaitDelay]
      \<and> trace (step (Reply 0 r) s) = trace s @ [Delay 100]
      \<and> sends (trace (run [Scan, DomChange [1], Reply 0 Rejected] (step (Reply 0 r) s)))
          = [trim sampleText]"
    unfolding sn .
  then show ?thesis unfolding s_def r_def .
qed

text \<open>
  C1, as the source has it. The claim fails when the second element is scanned before the
  result of the first is cached: the cache is written only when a classification has come
  back, and nothing looks for the identifier among the items queued or in flight. One scan
  of two tweets with the same text leaves two items with the same identifier, one in flight
  and one queued, and both are sent.
\<close>

theorem same_text_two_requests:
  "pendingItems (run [Scan] (freshPage [0, 1] (\<lambda>t. Some sampleText)))
     = [sampleItem 0, sampleItem 1]
   \<and> postId (sampleItem 0) = postId (sampleItem 1)
   \<and> sends (trace (run [Scan, Reply 0 (Resolved sampleResult), Timeout 0]
                      (freshPage [0, 1] (\<lambda>t. Some sampleText))))
     = [trim sampleText, trim sampleText]"
  by (simp add: run_defs pendingItems_def inFlight_def)

text \<open>
  C1, amended. When the classification of a first element comes back with a result, the
  result is written to the cache under the identifier of its text; from then on, whatever
  events follow, the cache has an entry under that identifier (a later result for the same
  identifier replaces it). An untagged element of the document with the same trimmed text
  (of 20 code units or more) that is scanned from then on finds the entry, has its badge
  inserted and gets the tag \<open>cached\<close>, and the scan of it changes nothing else: no item
  is pushed, queued or in flight for it and no message is sent. No later run pushes an
  item for it either.
\<close>

theorem cached_text_served_from_cache:
  assumes "loops s0 = [AwaitReply it]" and "postId it = hashString (trim T)"
    and "\<not> hasError res"
    and "s = run es (step (Reply 0 (Resolved res)) s0)"
    and "\<not> tagged s t" and "t \<in> set (document s)"
    and "tweetText (elements s t) = Some T'" and "trim T' = trim T"
    and "\<not> length (trim T) < 20"
  shows "analyzedPosts (step (Reply 0 (Resolved res)) s0) (hashString (trim T)) = Some res
       \<and> (\<exists>cached. analyzedPosts s (hashString (trim T)) = Some cached
             \<and> scanTweet t s =
                 s\<lparr>elements := (elements s)(t :=
                     (if insertsOutside s t
                      then (elements s t)
                             \<lparr>badge := None,
                              strayBadges := strayBadges (elements s t) @ [ResultBadge cached],
                              slopAnalyzed := Some (js ''cached'')\<rparr>
                      else (elements s t)
                             \<lparr>badge := Some (ResultBadge cached),
                              slopAnalyzed := Some (js ''cached'')\<rparr>))\<rparr>
             \<and> trace (scanTweet t s) = trace s
             \<and> pendingItems (scanTweet t s) = pendingItems s)
       \<and> (\<forall>es'. filter (\<lambda>x. tweet x = t) (pushes (trace (run es' (scanTweet t s))))
                = filter (\<lambda>x. tweet x = t) (pushes (trace s)))"
proof -
  have "step (Reply 0 (Resolved res)) s0 = resumeReply it (Resolved res) (s0\<lparr>loops := []\<rparr>)"
    using assms(1) by (rule step_Reply_inFlight)
  then have first: "analyzedPosts (step (Reply 0 (Resolved res)) s0) (hashString (trim T)) = Some res"
    using resumeReply_cached [OF assms(3), of it "s0\<lparr>loops := []\<rparr>"] assms(2) by simp
  then have "analyzedPosts (step (Reply 0 (Resolved res)) s0) (hashString (trim T)) \<noteq> None"
    by simp
  then have "analyzedPosts s (hashString (trim T)) \<noteq> None"
    unfolding assms(4) by (rule run_cached)
  then obtain cached where hit: "analyzedPosts s (hashString (trim T)) = Some cached"
    by blast
  have quiet: "\<not> insertThrows s t"
    using assms(6) by (rule insertThrows_attached)
  have eq: "scanTweet t s =
      s\<lparr>elements := (elements s)(t :=
          (if insertsOutside s t
           then (elements s t)
                  \<lparr>badge := None,
                   strayBadges := strayBadges (elements s t) @ [ResultBadge cached],
                   slopAnalyzed := Some (js ''cached'')\<rparr>
           else (elements s t)
                  \<lparr>badge := Some (ResultBadge cached),
                   slopAnalyzed := Some (js ''cached'')\<rparr>))\<rparr>"
    using assms(5,7) assms(9) hit quiet unfolding assms(8) [symmetric] by (rule scanTweet_cached)
  have same: "trace (scanTweet t s) = trace s" "pendingItems (scanTweet t s) = pendingItems s"
    by (simp_all add: eq pendingItems_def inFlight_def)
  have "tagged (scanTweet t s) t"
    by (simp add: eq tagged_def)
  then have "filter (\<lambda>x. tweet x = t) (pushes (trace (run es' (scanTweet t s))))
               = filter (\<lambda>x. tweet x = t) (pushes (trace (scanTweet t s)))" for es'
    by (rule run_pushes_tagged)
  then have "\<forall>es'. filter (\<lambda>x. tweet x = t) (pushes (trace (run es' (scanTweet t s))))
               = filter (\<lambda>x. tweet x = t) (pushes (trace s))"
    unfolding same(1) by blast
  then show ?thesis using first hit eq same by blast
qed

theorem cached_text_served_from_cache_witness:
  "slopAnalyzed (elements (scanTweet 1
       (run [Timeout 0, DomChange [0, 1]] (step (Reply 0 (Resolved sampleResult))
          (run [Scan] (freshPage [0] (\<lambda>t. Some sampleText)))))) 1) = Some (js ''cached'')
   \<and> badge (elements (scanTweet 1
       (run [Timeout 0, DomChange [0, 1]] (step (Reply 0 (Resolved sampleResult))
          (run [Scan] (freshPage [0] (\<lambda>t. Some sampleText)))))) 1) = Some (ResultBadge sampleResult)
   \<and> sends (trace (scanTweet 1
       (run [Timeout 0, DomChange [0, 1]] (step (Reply 0 (Resolved sampleResult))
          (run [Scan] (freshPage [0] (\<lambda>t. Some sampleText))))))) = [trim sampleText]"
proof -
  define s0 where "s0 = run [Scan] (freshPage [0] (\<lambda>t. Some sampleText))"
  define s where "s = run [Timeout 0, DomChange [0, 1]] (step (Reply 0 (Resolved sampleResult)) s0)"
  have l: "loops s0 = [AwaitReply (sampleItem 0)]"
    by (simp add: s0_def run_defs)
  have p: "postId (sampleItem 0) = hashString (trim sampleText)"
    by (simp add: sampleItem_def)
  have ok: "\<not> hasError sampleResult"
    by (simp add: sampleResult_def hasError_def)
  have u: "\<not> tagged s 1" and tx: "tweetText (elements s 1) = Some sampleText"
    and sn: "sends (trace s) = [trim sampleText]"
    and ca: "analyzedPosts s (hashString (trim sampleText)) = Some sampleResult"
    by (simp_all add: s_def s0_def run_defs)
  have d: "1 \<in> set (document s)" and inside: "\<not> insertsOutside s 1"
    by (simp_all add: s_def s0_def run_defs insertsOutside_def)
  from cached_text_served_from_cache [OF l p ok s_def u d tx refl sampleText_long]
  obtain cached where hit: "analyzedPosts s (hashString (trim sampleText)) = Some cached"
    and eq': "scanTweet 1 s =
      s\<lparr>elements := (elements s)(1 :=
          (if insertsOutside s 1
           then (elements s 1)
                  \<lparr>badge := None,
                   strayBadges := strayBadges (elements s 1) @ [ResultBadge cached],
                   slopAnalyzed := Some (js ''cached'')\<rparr>
           else (elements s 1)
                  \<lparr>badge := Some (ResultBadge cached),
                   slopAnalyzed := Some (js ''cached'')\<rparr>))\<rparr>"
    and tr: "trace (scanTweet 1 s) = trace s"
    by blast
  have eq: "scanTweet 1 s =
      s\<lparr>elements := (elements s)(1 := (elements s 1)
          \<lparr>badge := Some (ResultBadge cached), slopAnalyzed := Some (js ''cached'')\<rparr>)\<rparr>"
    using eq' inside by simp
  have same: "cached = sampleResult" using hit ca by simp
  have "slopAnalyzed (elements (scanTweet 1 s) 1) = Some (js ''cached'')"
    unfolding eq by simp
  moreover have "badge (elements (scanTweet 1 s) 1) = Some (ResultBadge sampleResult)"
    unfolding eq same by simp
  moreover have "sends (trace (scanTweet 1 s)) = [trim sampleText]"
    unfolding tr sn ..
  ultimately have "slopAnalyzed (elements (scanTweet 1 s) 1) = Some (js ''cached'')
      \<and> badge (elements (scanTweet 1 s) 1) = Some (ResultBadge sampleResult)
      \<and> sends (trace (scanTweet 1 s)) = [trim sampleText]"
    by blast
  then show ?thesis unfolding s_def s0_def .
qed

end
